theory Spec2Isabelle
  imports Complex_Main "HOL-Library.Multiset"
begin

section \<open>Numbers of type double\<close>

text \<open>
  The sampler computes with C++ \<^verbatim>\<open>double\<close>. A double is modelled as an exact real number
  or one of the three special values of IEEE arithmetic: the two infinities and NaN. The
  code produces them on purpose (\<^verbatim>\<open>log(double(0))\<close> initialises the harmonic mean), and the
  comparisons of the code are false on NaN. The operators \<open>+\<close>, \<open>-\<close>, \<open>*\<close> and \<open>/\<close> of this
  type are exact on finite numbers: they do not round and do not overflow. They stand for
  the arithmetic of the code where a claim is about the formula that the code computes.
  Where the rounding decides what the code does, in the loops of \<^verbatim>\<open>alpha_update\<close>, the
  model uses the rounded sum \<open>fadd\<close> and difference \<open>fsub\<close> of the section on rounding
  below. The sign of zero is not modelled.
\<close>

datatype double = Fin real | PInf | NInf | NaN

instantiation double :: "{zero, one, plus, minus, uminus, times, inverse, ord}"
begin

definition zero_double :: double where
  "zero_double = Fin 0"

definition one_double :: double where
  "one_double = Fin 1"

fun plus_double :: "double \<Rightarrow> double \<Rightarrow> double" where
  "plus_double NaN b = NaN"
| "plus_double a NaN = NaN"
| "plus_double PInf NInf = NaN"
| "plus_double NInf PInf = NaN"
| "plus_double PInf b = PInf"
| "plus_double a PInf = PInf"
| "plus_double NInf b = NInf"
| "plus_double a NInf = NInf"
| "plus_double (Fin x) (Fin y) = Fin (x + y)"

fun uminus_double :: "double \<Rightarrow> double" where
  "uminus_double (Fin x) = Fin (- x)"
| "uminus_double PInf = NInf"
| "uminus_double NInf = PInf"
| "uminus_double NaN = NaN"

definition minus_double :: "double \<Rightarrow> double \<Rightarrow> double" where
  "minus_double a b = a + (- b)"

fun times_double :: "double \<Rightarrow> double \<Rightarrow> double" where
  "times_double NaN b = NaN"
| "times_double a NaN = NaN"
| "times_double (Fin x) (Fin y) = Fin (x * y)"
| "times_double (Fin x) PInf = (if x = 0 then NaN else if 0 < x then PInf else NInf)"
| "times_double (Fin x) NInf = (if x = 0 then NaN else if 0 < x then NInf else PInf)"
| "times_double PInf (Fin y) = (if y = 0 then NaN else if 0 < y then PInf else NInf)"
| "times_double NInf (Fin y) = (if y = 0 then NaN else if 0 < y then NInf else PInf)"
| "times_double PInf PInf = PInf"
| "times_double PInf NInf = NInf"
| "times_double NInf PInf = NInf"
| "times_double NInf NInf = PInf"

fun inverse_double :: "double \<Rightarrow> double" where
  "inverse_double (Fin x) = (if x = 0 then PInf else Fin (inverse x))"
| "inverse_double PInf = Fin 0"
| "inverse_double NInf = Fin 0"
| "inverse_double NaN = NaN"

fun divide_double :: "double \<Rightarrow> double \<Rightarrow> double" where
  "divide_double NaN b = NaN"
| "divide_double a NaN = NaN"
| "divide_double (Fin x) (Fin y) =
     (if y \<noteq> 0 then Fin (x / y)
      else if 0 < x then PInf else if x < 0 then NInf else NaN)"
| "divide_double (Fin x) PInf = Fin 0"
| "divide_double (Fin x) NInf = Fin 0"
| "divide_double PInf (Fin y) = (if 0 \<le> y then PInf else NInf)"
| "divide_double NInf (Fin y) = (if 0 \<le> y then NInf else PInf)"
| "divide_double PInf b = NaN"
| "divide_double NInf b = NaN"

fun less_double :: "double \<Rightarrow> double \<Rightarrow> bool" where
  "less_double NaN b = False"
| "less_double a NaN = False"
| "less_double (Fin x) (Fin y) = (x < y)"
| "less_double a NInf = False"
| "less_double PInf b = False"
| "less_double NInf b = True"
| "less_double a PInf = True"

definition less_eq_double :: "double \<Rightarrow> double \<Rightarrow> bool" where
  "less_eq_double a b = (a < b \<or> (a \<noteq> NaN \<and> a = b))"

instance ..

end

instance double :: comm_monoid_add
proof
  fix a b c :: double
  show "a + b + c = a + (b + c)"
    by (cases a; cases b; cases c; simp)
  show "a + b = b + a"
    by (cases a; cases b; simp)
  show "0 + a = a"
    by (cases a; simp add: zero_double_def)
qed

instance double :: numeral ..

text \<open>The comparison \<^verbatim>\<open>==\<close> of two doubles: NaN is equal to nothing, itself included.\<close>

definition deq :: "double \<Rightarrow> double \<Rightarrow> bool" where
  "deq a b = (a \<noteq> NaN \<and> a = b)"

text \<open>The conversions \<^verbatim>\<open>double(i)\<close> of an integer count and of a dimension.\<close>

definition dbl :: "int \<Rightarrow> double" where
  "dbl i = Fin (of_int i)"

definition dbln :: "nat \<Rightarrow> double" where
  "dbln n = Fin (of_nat n)"

text \<open>The library functions \<^verbatim>\<open>exp\<close>, \<^verbatim>\<open>log\<close> and \<^verbatim>\<open>pow\<close> of \<^verbatim>\<open>cmath\<close>.\<close>

fun dexp :: "double \<Rightarrow> double" where
  "dexp (Fin x) = Fin (exp x)"
| "dexp PInf = PInf"
| "dexp NInf = Fin 0"
| "dexp NaN = NaN"

fun dlog :: "double \<Rightarrow> double" where
  "dlog (Fin x) = (if 0 < x then Fin (ln x) else if x = 0 then NInf else NaN)"
| "dlog PInf = PInf"
| "dlog NInf = NaN"
| "dlog NaN = NaN"

definition is_int :: "real \<Rightarrow> bool" where
  "is_int y = (of_int \<lfloor>y\<rfloor> = y)"

definition is_odd_int :: "real \<Rightarrow> bool" where
  "is_odd_int y = (is_int y \<and> odd \<lfloor>y\<rfloor>)"

fun dpow :: "double \<Rightarrow> double \<Rightarrow> double" where
  "dpow (Fin x) (Fin y) =
     (if y = 0 \<or> x = 1 then Fin 1
      else if 0 < x then Fin (x powr y)
      else if x = 0 then (if 0 < y then Fin 0 else PInf)
      else if is_odd_int y then Fin (- ((- x) powr y))
      else if is_int y then Fin ((- x) powr y)
      else NaN)"
| "dpow (Fin x) PInf =
     (if \<bar>x\<bar> = 1 then Fin 1 else if \<bar>x\<bar> < 1 then Fin 0 else PInf)"
| "dpow (Fin x) NInf =
     (if \<bar>x\<bar> = 1 then Fin 1 else if \<bar>x\<bar> < 1 then PInf else Fin 0)"
| "dpow (Fin x) NaN = (if x = 1 then Fin 1 else NaN)"
| "dpow PInf (Fin y) = (if y = 0 then Fin 1 else if 0 < y then PInf else Fin 0)"
| "dpow NInf (Fin y) =
     (if y = 0 then Fin 1
      else if 0 < y then (if is_odd_int y then NInf else PInf)
      else Fin 0)"
| "dpow PInf PInf = PInf"
| "dpow PInf NInf = Fin 0"
| "dpow NInf PInf = PInf"
| "dpow NInf NInf = Fin 0"
| "dpow PInf NaN = NaN"
| "dpow NInf NaN = NaN"
| "dpow NaN (Fin y) = (if y = 0 then Fin 1 else NaN)"
| "dpow NaN b = NaN"


section \<open>Rounding to binary64\<close>

text \<open>
  IEEE 754 binary64 arithmetic gives the sum of two doubles rounded to the nearest double,
  and of two nearest doubles the one whose significand is even. The doubles next to a real
  number \<open>x\<close> are multiples of its unit in the last place, 2 to the power \<open>e - 52\<close>, where
  \<open>e\<close> is the exponent of \<open>x\<close>: the integer part of the logarithm of its magnitude to the
  base 2, and -1022, the exponent of the subnormal numbers, when that is less.
\<close>

definition b64_exp :: "real \<Rightarrow> int" where
  "b64_exp x = (if x = 0 then - 1022 else max \<lfloor>log 2 \<bar>x\<bar>\<rfloor> (- 1022))"

definition b64_ulp :: "real \<Rightarrow> real" where
  "b64_ulp x = 2 powr (of_int (b64_exp x) - 52)"

text \<open>
  \<open>rne u x\<close> is the multiple of \<open>u\<close> nearest to \<open>x\<close>, the even multiple when two are
  equally near.
\<close>

definition rne :: "real \<Rightarrow> real \<Rightarrow> real" where
  "rne u x =
     (let q = x / u; f = \<lfloor>q\<rfloor>
      in if q - of_int f < 1 / 2 then of_int f * u
         else if 1 / 2 < q - of_int f then (of_int f + 1) * u
         else if even f then of_int f * u
         else (of_int f + 1) * u)"

definition b64_round :: "real \<Rightarrow> real" where
  "b64_round x = rne (b64_ulp x) x"

text \<open>
  The double that a real result is rounded to. A rounded magnitude of \<open>2^1024\<close> or more
  is beyond the largest double and gives an infinity.
\<close>

definition round64 :: "real \<Rightarrow> double" where
  "round64 x =
     (let y = b64_round x
      in if 2 ^ 1024 \<le> \<bar>y\<bar> then (if 0 < x then PInf else NInf) else Fin y)"

text \<open>
  The sum \<^verbatim>\<open>a + b\<close> and the difference \<^verbatim>\<open>a - b\<close> of two doubles in binary64 arithmetic.
  With an infinity or NaN among the operands there is nothing to round.
\<close>

fun fadd :: "double \<Rightarrow> double \<Rightarrow> double" where
  "fadd (Fin x) (Fin y) = round64 (x + y)"
| "fadd a b = a + b"

definition fsub :: "double \<Rightarrow> double \<Rightarrow> double" where
  "fsub a b = fadd a (- b)"

section \<open>The chain object\<close>

text \<open>
  The members of \<^verbatim>\<open>class MCMCobject_admixture\<close> that the functions below read or write,
  under their names in the source. Dimensions, indices and deme labels are natural
  numbers, counts are integers (the sampler decrements them). The lookup table
  \<^verbatim>\<open>log_lookup\<close> and the work vectors of the assignment solver are never used by these
  functions and are left out.
\<close>

record MCMCobject_admixture =
  data :: "nat list list list"
  K :: nat
  n :: nat
  loci :: nat
  J :: "nat list"
  ploidy_vec :: "nat list"
  uniquePops :: "nat list"
  geneCopies :: nat
  lambda :: double
  fixAlpha_on :: bool
  alpha :: double
  alphaPropSD :: double
  beta :: double
  outputQmatrix_pop_on :: bool
  burnin :: nat
  samples :: nat
  thinning :: nat
  groupIndex :: int
  linearGroup :: "nat list"
  alleleCounts :: "int list list list"
  alleleCountsTotals :: "int list list"
  alleleFreqs :: "double list list list"
  admixCounts :: "int list list"
  admixCountsTotals :: "int list"
  admixFreqs :: "double list list"
  old_alleleCounts :: "int list list list"
  old_alleleCountsTotals :: "int list list"
  old_admixCounts :: "int list list"
  probVec :: "double list"
  probVecSum :: double
  logQmatrix_gene_old :: "double list list"
  logQmatrix_gene_new :: "double list list"
  Qmatrix_gene_new :: "double list list"
  logQmatrix_gene_running :: "double list list"
  logQmatrix_gene :: "double list list"
  Qmatrix_gene :: "double list list"
  Qmatrix_ind :: "double list list"
  Qmatrix_pop :: "double list list"
  costMat :: "double list list"
  bestPerm :: "nat list"
  bestPermOrder :: "nat list"
  logLikeGroup :: double
  logLikeGroup_sum :: double
  logLikeGroup_store :: "double list"
  logLikeGroup_sumSquared :: double
  logLikeJoint :: double
  logLikeJoint_sum :: double
  logLikeJoint_sumSquared :: double
  harmonic :: double

section \<open>The Metropolis update of alpha\<close>

text \<open>
  The two loops of \<^verbatim>\<open>alpha_update\<close> that bring the proposal into the range from -10 to 20,
  \<^verbatim>\<open>while (alpha_new< -10) alpha_new += 20;\<close> and
  \<^verbatim>\<open>while (alpha_new> 20) alpha_new -= 20;\<close>. The sum and the difference are rounded to
  binary64: for a large \<^verbatim>\<open>alpha_new\<close> the rounded result is \<^verbatim>\<open>alpha_new\<close> again. A loop that
  never ends has the value None.
\<close>

partial_function (option) wrap_up :: "double \<Rightarrow> double option" where
  "wrap_up a = (if a < - 10 then wrap_up (fadd a 20) else Some a)"

partial_function (option) wrap_down :: "double \<Rightarrow> double option" where
  "wrap_down a = (if a > 20 then wrap_down (fsub a 20) else Some a)"

text \<open>
  Lines 409 to 427 of \<^verbatim>\<open>alpha_update\<close>: the reflection of the proposal off the
  boundaries 0 and 10, and the replacement of an exact zero. The difference
  \<^verbatim>\<open>20-alpha_new\<close> is rounded to binary64, the negation is exact.
\<close>

definition alpha_reflect :: "double \<Rightarrow> double option" where
  "alpha_reflect a0 =
     (case (if a0 < 0 \<or> a0 > 10 then
              (case wrap_up a0 of
                 None \<Rightarrow> None
               | Some a1 \<Rightarrow>
                   (case wrap_down a1 of
                      None \<Rightarrow> None
                    | Some a2 \<Rightarrow>
                        (let a3 = (if a2 < 0 then - a2 else a2);
                             a4 = (if a3 > 10 then fsub 20 a3 else a3)
                         in Some a4)))
            else Some a0) of
        None \<Rightarrow> None
      | Some a \<Rightarrow> Some (if deq a 0 then dpow 10 (- 300) else a))"

text \<open>
  Lines 430 to 439: the two log probabilities, accumulated together over the
  individuals and the demes. \<open>lg\<close> is the library function \<^verbatim>\<open>lgamma\<close>, a parameter of
  the model. The result is the pair of \<^verbatim>\<open>logProb_old\<close> and \<^verbatim>\<open>logProb_new\<close>.
\<close>

definition alpha_logProbs ::
  "(double \<Rightarrow> double) \<Rightarrow> MCMCobject_admixture \<Rightarrow> double \<Rightarrow> double \<times> double" where
  "alpha_logProbs lg s alpha_new =
     fold (\<lambda>i (po, pn).
        fold (\<lambda>k (po, pn).
               (po + (lg (dbl (admixCounts s ! i ! k) + alpha s) - lg (alpha s)),
                pn + (lg (dbl (admixCounts s ! i ! k) + alpha_new) - lg alpha_new)))
          [0..<K s]
          (po + (lg (dbln (K s) * alpha s)
                 - lg (dbl (admixCountsTotals s ! i) + dbln (K s) * alpha s)),
           pn + (lg (dbln (K s) * alpha_new)
                 - lg (dbl (admixCountsTotals s ! i) + dbln (K s) * alpha_new))))
       [0..<n s] (0, 0)"

text \<open>
  \<^verbatim>\<open>alpha_update\<close> (the record's field update already has this name, so the function
  is called \<open>alpha_update_step\<close>). The two random numbers it draws are arguments: \<open>x\<close> is the value of
  \<^verbatim>\<open>rnorm1(alpha,alphaPropSD)\<close> and \<open>u\<close> the value of \<^verbatim>\<open>runif1(0.0,1.0)\<close>.
\<close>

definition alpha_update_step ::
  "(double \<Rightarrow> double) \<Rightarrow> double \<Rightarrow> double \<Rightarrow> MCMCobject_admixture
     \<Rightarrow> MCMCobject_admixture option" where
  "alpha_update_step lg x u s =
     (case alpha_reflect x of
        None \<Rightarrow> None
      | Some alpha_new \<Rightarrow>
          (case alpha_logProbs lg s alpha_new of
             (logProb_old, logProb_new) \<Rightarrow>
               if u < dexp (logProb_new - logProb_old)
               then Some (s\<lparr>alpha := alpha_new\<rparr>)
               else Some s))"


text \<open>
  The quantity that the specification calls \<open>log p(alpha)\<close>, written as the specification
  writes it: a sum over the individuals of a term for the total and a sum over the demes.
\<close>

definition logp_alpha :: "(double \<Rightarrow> double) \<Rightarrow> MCMCobject_admixture \<Rightarrow> double \<Rightarrow> double" where
  "logp_alpha lg s a =
     (\<Sum>i\<leftarrow>[0..<n s].
        (lg (dbln (K s) * a) - lg (dbl (admixCountsTotals s ! i) + dbln (K s) * a))
        + (\<Sum>k\<leftarrow>[0..<K s]. lg (dbl (admixCounts s ! i ! k) + a) - lg a))"

section \<open>A small chain\<close>

text \<open>
  The chain of the first scenario of the specification, after a reset that put both gene
  copies into the first deme: two haploid individuals, one locus with two alleles, the
  observations 1 and 2, two demes, lambda, alpha and beta all 1.
\<close>

definition chain_S1 :: MCMCobject_admixture where
  "chain_S1 = \<lparr>
     data = [[[1]], [[2]]], K = 2, n = 2, loci = 1, J = [2], ploidy_vec = [1, 1],
     uniquePops = [0], geneCopies = 2, lambda = 1, fixAlpha_on = True, alpha = 1,
     alphaPropSD = Fin (1 / 10), beta = 1, outputQmatrix_pop_on = False,
     burnin = 0, samples = 1, thinning = 1, groupIndex = 1,
     linearGroup = [1, 1],
     alleleCounts = [[[1, 1]], [[0, 0]]], alleleCountsTotals = [[2], [0]],
     alleleFreqs = [[[0, 0]], [[0, 0]]],
     admixCounts = [[1, 0], [1, 0]], admixCountsTotals = [1, 1],
     admixFreqs = [[0, 0], [0, 0]],
     old_alleleCounts = [], old_alleleCountsTotals = [], old_admixCounts = [],
     probVec = [0, 0], probVecSum = 0,
     logQmatrix_gene_old = [[0, 0], [0, 0]], logQmatrix_gene_new = [[0, 0], [0, 0]],
     Qmatrix_gene_new = [[0, 0], [0, 0]],
     logQmatrix_gene_running = [[Fin (- ln 2), Fin (- ln 2)], [Fin (- ln 2), Fin (- ln 2)]],
     logQmatrix_gene = [[NInf, NInf], [NInf, NInf]],
     Qmatrix_gene = [[0, 0], [0, 0]], Qmatrix_ind = [[0, 0], [0, 0]],
     Qmatrix_pop = [[0, 0]],
     costMat = [[0, 0], [0, 0]], bestPerm = [], bestPermOrder = [0, 0],
     logLikeGroup = 0, logLikeGroup_sum = 0, logLikeGroup_store = [0],
     logLikeGroup_sumSquared = 0, logLikeJoint = 0, logLikeJoint_sum = 0,
     logLikeJoint_sumSquared = 0, harmonic = NInf \<rparr>"

section \<open>Loops and vectors\<close>

text \<open>
  A \<^verbatim>\<open>for\<close> loop whose body always returns is a \<open>fold\<close> over the range of its counter. A
  loop whose body may stop the chain is \<open>ofold\<close>: the first None ends it.
\<close>

primrec ofold :: "('a \<Rightarrow> 's \<Rightarrow> 's option) \<Rightarrow> 'a list \<Rightarrow> 's \<Rightarrow> 's option" where
  "ofold f [] s = Some s"
| "ofold f (x # xs) s = (case f x s of None \<Rightarrow> None | Some s' \<Rightarrow> ofold f xs s')"

text \<open>
  The statements \<^verbatim>\<open>v[a] += d\<close>, \<^verbatim>\<open>v[a][b] += d\<close>, \<^verbatim>\<open>v[a][b][c] += d\<close> on vectors of
  counts, and the assignment \<^verbatim>\<open>v[a][b] = x\<close>.
\<close>

definition incr1 :: "int list \<Rightarrow> nat \<Rightarrow> int \<Rightarrow> int list" where
  "incr1 v a d = v[a := v ! a + d]"

definition incr2 :: "int list list \<Rightarrow> nat \<Rightarrow> nat \<Rightarrow> int \<Rightarrow> int list list" where
  "incr2 v a b d = v[a := incr1 (v ! a) b d]"

definition incr3 :: "int list list list \<Rightarrow> nat \<Rightarrow> nat \<Rightarrow> nat \<Rightarrow> int \<Rightarrow> int list list list" where
  "incr3 v a b c d = v[a := incr2 (v ! a) b c d]"

definition put2 :: "'a list list \<Rightarrow> nat \<Rightarrow> nat \<Rightarrow> 'a \<Rightarrow> 'a list list" where
  "put2 v a b x = v[a := (v ! a)[b := x]]"

section \<open>Helpers that are not among the sources\<close>

text \<open>
  Modelled from the spec: \<^verbatim>\<open>sample1\<close> (declared in probability.h, which is not among the
  sources). The specification describes it as the categorical draw from an unnormalized
  weight vector that "uses cumulative sum with the canonical sampler" \<open>u\<close> times the sum
  of the weights: the result is the first index, counted from 1, whose cumulative weight
  exceeds \<open>u\<close> times \<open>pSum\<close>. \<open>u\<close> is the uniform random number the call draws. When no
  index qualifies (the specification: a weight vector summing to zero "aborts the chain")
  the result is None.
\<close>

primrec sample1_scan :: "double list \<Rightarrow> double \<Rightarrow> double \<Rightarrow> nat \<Rightarrow> nat option" where
  "sample1_scan [] rand z i = None"
| "sample1_scan (w # ws) rand z i =
     (if rand < z + w then Some (i + 1) else sample1_scan ws rand (z + w) (i + 1))"

definition sample1 :: "double list \<Rightarrow> double \<Rightarrow> double \<Rightarrow> nat option" where
  "sample1 p pSum u = sample1_scan p (pSum * u) 0 0"

text \<open>
  Modelled from the spec: \<^verbatim>\<open>logSum\<close> (declared in misc.h, which is not among the sources).
  The specification: \<open>logSum(a,b) = log(e^a + e^b)\<close>.
\<close>

definition logSum :: "double \<Rightarrow> double \<Rightarrow> double" where
  "logSum a b = dlog (dexp a + dexp b)"

text \<open>
  Modelled from the spec: \<^verbatim>\<open>hungarian\<close> (declared in Hungarian.h, which is not among the
  sources). The specification: a minimum-cost perfect matching on a square cost matrix,
  returned as a permutation \<open>pi\<close> minimizing the sum of the entries \<open>C[k][pi(k)]\<close>. The
  model takes the first permutation of least cost in a fixed enumeration of all
  permutations; a cost that is not below another one (NaN) never replaces it.
\<close>

primrec inserts :: "'a \<Rightarrow> 'a list \<Rightarrow> 'a list list" where
  "inserts x [] = [[x]]"
| "inserts x (y # ys) = (x # y # ys) # map ((#) y) (inserts x ys)"

primrec perms :: "'a list \<Rightarrow> 'a list list" where
  "perms [] = [[]]"
| "perms (x # xs) = concat (map (inserts x) (perms xs))"

definition perm_cost :: "double list list \<Rightarrow> nat list \<Rightarrow> double" where
  "perm_cost C q = (\<Sum>k\<leftarrow>[0..<length C]. C ! k ! (q ! k))"

primrec least_cost :: "double list list \<Rightarrow> nat list \<Rightarrow> nat list list \<Rightarrow> nat list" where
  "least_cost C best [] = best"
| "least_cost C best (q # qs) =
     least_cost C (if perm_cost C q < perm_cost C best then q else best) qs"

definition hungarian :: "double list list \<Rightarrow> nat list" where
  "hungarian C = least_cost C [0..<length C] (perms [0..<length C])"

section \<open>The gene copies in canonical order\<close>

text \<open>
  Every loop over the gene copies scans the individuals, then the loci, then the ploidy
  slots, and counts the copies in \<^verbatim>\<open>groupIndex\<close>. This is the list of the copies in that
  order.
\<close>

definition copies :: "MCMCobject_admixture \<Rightarrow> (nat \<times> nat \<times> nat) list" where
  "copies s =
     concat (map (\<lambda>ind.
       concat (map (\<lambda>l. map (\<lambda>p. (ind, l, p)) [0..<ploidy_vec s ! ind]) [0..<loci s]))
       [0..<n s])"

section \<open>The resampling of the group of every gene copy\<close>

text \<open>
  The four statements that take a gene copy out of the counts (\<open>d\<close> is -1) or put it into
  them (\<open>d\<close> is 1), at the deme \<^verbatim>\<open>linearGroup[groupIndex]-1\<close>.
\<close>

definition count_copy :: "int \<Rightarrow> nat \<Rightarrow> nat \<Rightarrow> nat \<Rightarrow> MCMCobject_admixture \<Rightarrow> MCMCobject_admixture" where
  "count_copy d ind l p s =
     (let k = linearGroup s ! nat (groupIndex s) - 1;
          a = data s ! ind ! l ! p - 1
      in s\<lparr>alleleCounts := incr3 (alleleCounts s) k l a d,
            alleleCountsTotals := incr2 (alleleCountsTotals s) k l d,
            admixCounts := incr2 (admixCounts s) ind k d,
            admixCountsTotals := incr1 (admixCountsTotals s) ind d\<rparr>)"

text \<open>
  One round of the loop over the demes that fills \<^verbatim>\<open>probVec\<close> and \<^verbatim>\<open>probVecSum\<close>. The
  loop of \<^verbatim>\<open>group_update\<close> raises the allele factor to the power beta unless beta is 1
  (\<open>with_beta\<close> is True); the loop of \<^verbatim>\<open>produceQmatrix\<close> is the same without that statement
  (\<open>with_beta\<close> is False).
\<close>

definition weight_step ::
  "bool \<Rightarrow> nat \<Rightarrow> nat \<Rightarrow> nat \<Rightarrow> nat \<Rightarrow> MCMCobject_admixture \<Rightarrow> MCMCobject_admixture" where
  "weight_step with_beta ind l p k s =
     (let s1 =
            (if data s ! ind ! l ! p = 0 then s\<lparr>probVec := (probVec s)[k := 1]\<rparr>
             else
               (let s' = s\<lparr>probVec := (probVec s)[k :=
                           (dbl (alleleCounts s ! k ! l ! (data s ! ind ! l ! p - 1)) + lambda s)
                           / (dbl (alleleCountsTotals s ! k ! l) + dbln (J s ! l) * lambda s)]\<rparr>
                in if with_beta \<and> \<not> deq (beta s') 1
                   then s'\<lparr>probVec := (probVec s')[k := dpow (probVec s' ! k) (beta s')]\<rparr>
                   else s'));
          s2 = s1\<lparr>probVec := (probVec s1)[k :=
                    probVec s1 ! k * (dbl (admixCounts s1 ! ind ! k) + alpha s1)]\<rparr>
      in s2\<lparr>probVecSum := probVecSum s2 + probVec s2 ! k\<rparr>)"

text \<open>
  The body of the loops of \<^verbatim>\<open>group_update\<close> for the gene copy at individual \<open>ind\<close>, locus
  \<open>l\<close> and slot \<open>p\<close>; \<open>u\<close> is the uniform number that \<^verbatim>\<open>sample1\<close> draws.
\<close>

definition group_update_copy ::
  "double \<Rightarrow> nat \<Rightarrow> nat \<Rightarrow> nat \<Rightarrow> MCMCobject_admixture \<Rightarrow> MCMCobject_admixture option" where
  "group_update_copy u ind l p s0 =
     (let s1 = s0\<lparr>groupIndex := groupIndex s0 + 1\<rparr>;
          s2 = (if data s1 ! ind ! l ! p \<noteq> 0 then count_copy (- 1) ind l p s1 else s1);
          s3 = fold (weight_step True ind l p) [0..<K s2] (s2\<lparr>probVecSum := 0\<rparr>)
      in case sample1 (probVec s3) (probVecSum s3) u of
           None \<Rightarrow> None
         | Some k' \<Rightarrow>
             (let s4 = s3\<lparr>linearGroup := (linearGroup s3)[nat (groupIndex s3) := k']\<rparr>
              in Some (if data s4 ! ind ! l ! p \<noteq> 0 then count_copy 1 ind l p s4 else s4)))"

text \<open>
  \<^verbatim>\<open>group_update\<close>. \<open>us g\<close> is the uniform number drawn for the gene copy number \<open>g\<close>.
\<close>

definition group_update ::
  "(nat \<Rightarrow> double) \<Rightarrow> MCMCobject_admixture \<Rightarrow> MCMCobject_admixture option" where
  "group_update us s0 =
     ofold (\<lambda>ind s.
       ofold (\<lambda>l s.
         ofold (\<lambda>p s. group_update_copy (us (nat (groupIndex s + 1))) ind l p s)
           [0..<ploidy_vec s ! ind] s)
         [0..<loci s] s)
       [0..<n s0] (s0\<lparr>groupIndex := - 1\<rparr>)"

section \<open>Reset\<close>

text \<open>
  \<^verbatim>\<open>reset\<close>. \<open>us g\<close> is the uniform number that \<^verbatim>\<open>sample1(equalK,1.0)\<close> draws for the gene
  copy number \<open>g\<close>.
\<close>

definition reset_group ::
  "(nat \<Rightarrow> double) \<Rightarrow> MCMCobject_admixture \<Rightarrow> MCMCobject_admixture option" where
  "reset_group us s0 =
     (let equalK = replicate (K s0) (1 / dbln (K s0)) in
      ofold (\<lambda>ind s.
        ofold (\<lambda>l s.
          ofold (\<lambda>p s.
             (let s1 = s\<lparr>groupIndex := groupIndex s + 1\<rparr> in
              case sample1 equalK 1 (us (nat (groupIndex s1))) of
                None \<Rightarrow> None
              | Some k' \<Rightarrow>
                  Some (s1\<lparr>linearGroup := (linearGroup s1)[nat (groupIndex s1) := k']\<rparr>)))
            [0..<ploidy_vec s ! ind] s)
          [0..<loci s] s)
        [0..<n s0] (s0\<lparr>groupIndex := - 1\<rparr>))"

definition reset_zero :: "MCMCobject_admixture \<Rightarrow> MCMCobject_admixture" where
  "reset_zero s0 =
     (let s1 = fold (\<lambda>k s.
                 fold (\<lambda>l s. s\<lparr>alleleCounts :=
                                  (alleleCounts s)[k := (alleleCounts s ! k)[l := replicate (J s ! l) 0]]\<rparr>)
                   [0..<loci s]
                   (s\<lparr>alleleCountsTotals := (alleleCountsTotals s)[k := replicate (loci s) 0]\<rparr>))
                 [0..<K s0] s0
      in s1\<lparr>admixCounts := replicate (n s1) (replicate (K s1) 0),
             admixCountsTotals := replicate (n s1) 0\<rparr>)"

definition reset_populate :: "MCMCobject_admixture \<Rightarrow> MCMCobject_admixture" where
  "reset_populate s0 =
     fold (\<lambda>ind s.
       fold (\<lambda>l s.
         fold (\<lambda>p s.
            (let s1 = s\<lparr>groupIndex := groupIndex s + 1\<rparr>
             in if data s1 ! ind ! l ! p \<noteq> 0 then count_copy 1 ind l p s1 else s1))
           [0..<ploidy_vec s ! ind] s)
         [0..<loci s] s)
       [0..<n s0] (s0\<lparr>groupIndex := - 1\<rparr>)"

definition reset ::
  "(nat \<Rightarrow> double) \<Rightarrow> bool \<Rightarrow> MCMCobject_admixture \<Rightarrow> MCMCobject_admixture option" where
  "reset us reset_Qmatrix_running s0 =
     (let s1 = s0\<lparr>logLikeGroup := 0, logLikeGroup_sum := 0,
                  logLikeGroup_store := replicate (samples s0) 0,
                  logLikeGroup_sumSquared := 0, logLikeJoint := 0, logLikeJoint_sum := 0,
                  logLikeJoint_sumSquared := 0, harmonic := dlog (dbl 0)\<rparr>;
          s2 = s1\<lparr>logQmatrix_gene_old := replicate (geneCopies s1) (replicate (K s1) 0),
                  logQmatrix_gene_new := replicate (geneCopies s1) (replicate (K s1) 0),
                  Qmatrix_gene_new := replicate (geneCopies s1) (replicate (K s1) 0)\<rparr>;
          s3 = (if reset_Qmatrix_running
                then s2\<lparr>logQmatrix_gene_running :=
                          replicate (geneCopies s2) (replicate (K s2) (- dlog (dbln (K s2))))\<rparr>
                else s2);
          s4 = s3\<lparr>logQmatrix_gene :=
                    replicate (geneCopies s3) (replicate (K s3) (dlog (dbl 0))),
                  Qmatrix_gene := replicate (geneCopies s3) (replicate (K s3) 0),
                  Qmatrix_ind := replicate (n s3) (replicate (K s3) 0),
                  Qmatrix_pop := replicate (length (uniquePops s3)) (replicate (K s3) 0)\<rparr>
      in case reset_group us s4 of
           None \<Rightarrow> None
         | Some s5 \<Rightarrow> Some (reset_populate (reset_zero s5)))"

section \<open>The marginal likelihood\<close>

text \<open>\<^verbatim>\<open>d_logLikeGroup\<close>; \<open>lg\<close> is \<^verbatim>\<open>lgamma\<close>.\<close>

definition d_logLikeGroup ::
  "(double \<Rightarrow> double) \<Rightarrow> MCMCobject_admixture \<Rightarrow> MCMCobject_admixture" where
  "d_logLikeGroup lg s0 =
     fold (\<lambda>k s.
       fold (\<lambda>l s.
          (let s' = fold (\<lambda>j s. s\<lparr>logLikeGroup := logLikeGroup s
                             + (lg (lambda s + dbl (alleleCounts s ! k ! l ! j)) - lg (lambda s))\<rparr>)
                      [0..<J s ! l] s
           in s'\<lparr>logLikeGroup := logLikeGroup s'
                 + (lg (dbln (J s' ! l) * lambda s')
                    - lg (dbln (J s' ! l) * lambda s' + dbl (alleleCountsTotals s' ! k ! l)))\<rparr>))
         [0..<loci s] s)
       [0..<K s0] (s0\<lparr>logLikeGroup := 0\<rparr>)"

section \<open>The Q matrix of one iteration\<close>

text \<open>
  The body of the loops of \<^verbatim>\<open>produceQmatrix\<close> for the gene copy at individual \<open>ind\<close>,
  locus \<open>l\<close> and slot \<open>p\<close>, and \<^verbatim>\<open>produceQmatrix\<close>.
\<close>

definition produceQmatrix_copy ::
  "nat \<Rightarrow> nat \<Rightarrow> nat \<Rightarrow> MCMCobject_admixture \<Rightarrow> MCMCobject_admixture" where
  "produceQmatrix_copy ind l p s0 =
     (let s1 = s0\<lparr>groupIndex := groupIndex s0 + 1\<rparr>;
          s2 = fold (weight_step False ind l p) [0..<K s1] (s1\<lparr>probVecSum := 0\<rparr>)
      in fold (\<lambda>k s.
           (let s' = s\<lparr>Qmatrix_gene_new :=
                         put2 (Qmatrix_gene_new s) (nat (groupIndex s)) k
                           (probVec s ! k / probVecSum s)\<rparr>
            in s'\<lparr>logQmatrix_gene_new :=
                    put2 (logQmatrix_gene_new s') (nat (groupIndex s')) k
                      (dlog (Qmatrix_gene_new s' ! nat (groupIndex s') ! k))\<rparr>))
           [0..<K s2] s2)"

definition produceQmatrix :: "MCMCobject_admixture \<Rightarrow> MCMCobject_admixture" where
  "produceQmatrix s0 =
     fold (\<lambda>ind s.
       fold (\<lambda>l s.
         fold (\<lambda>p s. produceQmatrix_copy ind l p s) [0..<ploidy_vec s ! ind] s)
         [0..<loci s] s)
       [0..<n s0] (s0\<lparr>groupIndex := - 1\<rparr>)"

section \<open>The alignment of the labels\<close>

text \<open>
  \<^verbatim>\<open>chooseBestLabelPermutation\<close>. \<open>hung\<close> is the assignment solver, which the function calls
  on the cost matrix; the local variable \<^verbatim>\<open>performSwap\<close> is carried beside the chain by
  the loop that writes \<^verbatim>\<open>bestPermOrder\<close>.
\<close>

definition fill_costMat :: "MCMCobject_admixture \<Rightarrow> MCMCobject_admixture" where
  "fill_costMat s0 =
     fold (\<lambda>k1 s.
       fold (\<lambda>k2 s.
         fold (\<lambda>i s. s\<lparr>costMat := put2 (costMat s) k1 k2
                          (costMat s ! k1 ! k2
                           + Qmatrix_gene_new s ! i ! k1
                             * (logQmatrix_gene_new s ! i ! k1
                                - logQmatrix_gene_running s ! i ! k2))\<rparr>)
           [0..<geneCopies s] (s\<lparr>costMat := put2 (costMat s) k1 k2 0\<rparr>))
         [0..<K s] s)
       [0..<K s0] s0"

definition fill_bestPermOrder ::
  "MCMCobject_admixture \<Rightarrow> bool \<times> MCMCobject_admixture" where
  "fill_bestPermOrder s0 =
     fold (\<lambda>k (performSwap, s).
            (performSwap \<or> bestPerm s ! k \<noteq> k,
             s\<lparr>bestPermOrder := (bestPermOrder s)[bestPerm s ! k := k]\<rparr>))
       [0..<K s0] (False, s0)"

definition swap_labels :: "MCMCobject_admixture \<Rightarrow> MCMCobject_admixture" where
  "swap_labels s3 =
     (let s4 = fold (\<lambda>i s. s\<lparr>linearGroup := (linearGroup s)[i :=
                              bestPerm s ! (linearGroup s ! i - 1) + 1]\<rparr>)
                 [0..<geneCopies s3] s3;
          s5 = s4\<lparr>old_alleleCounts := alleleCounts s4,
                  old_alleleCountsTotals := alleleCountsTotals s4\<rparr>;
          s6 = fold (\<lambda>k s. s\<lparr>alleleCounts := (alleleCounts s)[k :=
                              old_alleleCounts s ! (bestPermOrder s ! k)],
                            alleleCountsTotals := (alleleCountsTotals s)[k :=
                              old_alleleCountsTotals s ! (bestPermOrder s ! k)]\<rparr>)
                 [0..<K s5] s5;
          s7 = s6\<lparr>old_admixCounts := admixCounts s6\<rparr>;
          s8 = fold (\<lambda>i s.
                 fold (\<lambda>k s. s\<lparr>admixCounts := put2 (admixCounts s) i k
                                  (old_admixCounts s ! i ! (bestPermOrder s ! k))\<rparr>)
                   [0..<K s] s)
                 [0..<n s7] s7;
          s9 = s8\<lparr>logQmatrix_gene_old := logQmatrix_gene_new s8\<rparr>
      in fold (\<lambda>i s.
           fold (\<lambda>k s. s\<lparr>logQmatrix_gene_new := put2 (logQmatrix_gene_new s) i k
                            (logQmatrix_gene_old s ! i ! (bestPermOrder s ! k))\<rparr>)
             [0..<K s] s)
           [0..<geneCopies s9] s9)"

definition chooseBestLabelPermutation ::
  "(double list list \<Rightarrow> nat list) \<Rightarrow> MCMCobject_admixture \<Rightarrow> MCMCobject_admixture" where
  "chooseBestLabelPermutation hung s0 =
     (let s1 = fill_costMat s0;
          s2 = s1\<lparr>bestPerm := hung (costMat s1)\<rparr>
      in case fill_bestPermOrder s2 of
           (performSwap, s3) \<Rightarrow> if performSwap then swap_labels s3 else s3)"

section \<open>The running and the stored Q matrices\<close>

definition updateQmatrix :: "MCMCobject_admixture \<Rightarrow> MCMCobject_admixture" where
  "updateQmatrix s0 =
     fold (\<lambda>i s.
       fold (\<lambda>k s. s\<lparr>logQmatrix_gene_running := put2 (logQmatrix_gene_running s) i k
                        (logSum (logQmatrix_gene_running s ! i ! k)
                                (logQmatrix_gene_new s ! i ! k))\<rparr>)
         [0..<K s] s)
       [0..<geneCopies s0] s0"

definition storeQmatrix :: "MCMCobject_admixture \<Rightarrow> MCMCobject_admixture" where
  "storeQmatrix s0 =
     fold (\<lambda>ind s.
       fold (\<lambda>l s.
         fold (\<lambda>p s.
            (let s1 = s\<lparr>groupIndex := groupIndex s + 1\<rparr>
             in fold (\<lambda>k s. s\<lparr>logQmatrix_gene :=
                                put2 (logQmatrix_gene s) (nat (groupIndex s)) k
                                  (logSum (logQmatrix_gene s ! nat (groupIndex s) ! k)
                                          (logQmatrix_gene_new s ! nat (groupIndex s) ! k))\<rparr>)
                  [0..<K s1] s1))
           [0..<ploidy_vec s ! ind] s)
         [0..<loci s] s)
       [0..<n s0] (s0\<lparr>groupIndex := - 1\<rparr>)"

section \<open>Draws of the frequencies and the joint likelihood\<close>

text \<open>
  \<^verbatim>\<open>drawFreqs\<close> and \<^verbatim>\<open>d_logLikeJoint\<close>. \<open>ga k l j\<close> and \<open>gb i k\<close> are the values that the
  calls of \<^verbatim>\<open>rgamma1\<close> return; the local variables \<^verbatim>\<open>randSum\<close> and \<^verbatim>\<open>temp1\<close> are carried
  beside the chain.
\<close>

definition put3 :: "'a list list list \<Rightarrow> nat \<Rightarrow> nat \<Rightarrow> nat \<Rightarrow> 'a \<Rightarrow> 'a list list list" where
  "put3 v a b c x = v[a := put2 (v ! a) b c x]"

definition drawFreqs ::
  "(nat \<Rightarrow> nat \<Rightarrow> nat \<Rightarrow> double) \<Rightarrow> (nat \<Rightarrow> nat \<Rightarrow> double)
     \<Rightarrow> MCMCobject_admixture \<Rightarrow> MCMCobject_admixture" where
  "drawFreqs ga gb s0 =
     (let s1 =
        fold (\<lambda>k s.
          fold (\<lambda>l s.
            (case fold (\<lambda>j (randSum, s).
                     (let s' = s\<lparr>alleleFreqs := put3 (alleleFreqs s) k l j (ga k l j)\<rparr>
                      in (randSum + alleleFreqs s' ! k ! l ! j, s')))
                   [0..<J s ! l] (0, s) of
               (randSum, s') \<Rightarrow>
                 fold (\<lambda>j s. s\<lparr>alleleFreqs := put3 (alleleFreqs s) k l j
                                  (alleleFreqs s ! k ! l ! j / randSum)\<rparr>)
                   [0..<J s' ! l] s'))
            [0..<loci s] s)
          [0..<K s0] s0
      in fold (\<lambda>i s.
           (case fold (\<lambda>k (randSum, s).
                    (let s' = s\<lparr>admixFreqs := put2 (admixFreqs s) i k (gb i k)\<rparr>
                     in (randSum + admixFreqs s' ! i ! k, s')))
                  [0..<K s] (0, s) of
              (randSum, s') \<Rightarrow>
                fold (\<lambda>k s. s\<lparr>admixFreqs := put2 (admixFreqs s) i k
                                 (admixFreqs s ! i ! k / randSum)\<rparr>)
                  [0..<K s'] s'))
           [0..<n s1] s1)"

definition d_logLikeJoint :: "MCMCobject_admixture \<Rightarrow> MCMCobject_admixture" where
  "d_logLikeJoint s0 =
     fold (\<lambda>i s.
       fold (\<lambda>l s.
         fold (\<lambda>p s.
            (if data s ! i ! l ! p \<noteq> 0
             then
               (let temp1 = fold (\<lambda>k t. t + admixFreqs s ! i ! k
                                         * alleleFreqs s ! k ! l ! (data s ! i ! l ! p - 1))
                              [0..<K s] 0
                in s\<lparr>logLikeJoint := logLikeJoint s + dlog temp1\<rparr>)
             else s))
           [0..<ploidy_vec s ! i] s)
         [0..<loci s] s)
       [0..<n s0] (s0\<lparr>logLikeJoint := 0\<rparr>)"

section \<open>The whole chain\<close>

text \<open>
  The arguments of \<^verbatim>\<open>perform_MCMC\<close>, the members of \<^verbatim>\<open>globals\<close> that it reads, and the
  random numbers that the iteration \<open>rep\<close> draws in its round \<open>thin\<close> of the thinning
  loop. The two output streams are not part of the chain and are not modelled, so the
  arguments that only select or label the output are left out.
\<close>

record run_args =
  drawAlleleFreqs :: bool
  storeLoglike :: bool
  fixLabels :: bool
  globals_fixAlpha_on :: bool
  pop_index :: "nat list"
  uniquePop_counts :: "nat list"
  unif_group :: "nat \<Rightarrow> nat \<Rightarrow> nat \<Rightarrow> double"
  norm_alpha :: "nat \<Rightarrow> nat \<Rightarrow> double"
  unif_alpha :: "nat \<Rightarrow> nat \<Rightarrow> double"
  gamma_allele :: "nat \<Rightarrow> nat \<Rightarrow> nat \<Rightarrow> nat \<Rightarrow> double"
  gamma_admix :: "nat \<Rightarrow> nat \<Rightarrow> nat \<Rightarrow> double"

text \<open>
  One iteration of the loop of \<^verbatim>\<open>perform_MCMC\<close>; the local variable \<^verbatim>\<open>thinSwitch\<close> is
  carried beside the chain.
\<close>

definition add_likelihoods :: "run_args \<Rightarrow> nat \<Rightarrow> MCMCobject_admixture \<Rightarrow> MCMCobject_admixture" where
  "add_likelihoods a rep s0 =
     (let s1 = s0\<lparr>logLikeGroup_sum := logLikeGroup_sum s0 + logLikeGroup s0\<rparr>;
          s2 = s1\<lparr>logLikeGroup_sumSquared :=
                    logLikeGroup_sumSquared s1 + logLikeGroup s1 * logLikeGroup s1\<rparr>;
          s3 = (if storeLoglike a
                then s2\<lparr>logLikeGroup_store :=
                          (logLikeGroup_store s2)[rep - burnin s2 := logLikeGroup s2]\<rparr>
                else s2);
          s4 = s3\<lparr>harmonic := logSum (harmonic s3) (- logLikeGroup s3)\<rparr>
      in if drawAlleleFreqs a
         then
           (let s5 = s4\<lparr>logLikeJoint_sum := logLikeJoint_sum s4 + logLikeJoint s4\<rparr>
            in s5\<lparr>logLikeJoint_sumSquared :=
                     logLikeJoint_sumSquared s5 + logLikeJoint s5 * logLikeJoint s5\<rparr>)
         else s4)"

definition mcmc_rep ::
  "(double \<Rightarrow> double) \<Rightarrow> (double list list \<Rightarrow> nat list) \<Rightarrow> run_args \<Rightarrow> nat
     \<Rightarrow> nat \<times> MCMCobject_admixture \<Rightarrow> (nat \<times> MCMCobject_admixture) option" where
  "mcmc_rep lg hung a rep st =
     (case st of (thinSwitch, s0) \<Rightarrow>
        (case ofold (\<lambda>thin s.
                 (case group_update (unif_group a rep thin) s of
                    None \<Rightarrow> None
                  | Some s' \<Rightarrow>
                      if \<not> globals_fixAlpha_on a
                      then alpha_update_step lg (norm_alpha a rep thin) (unif_alpha a rep thin) s'
                      else Some s'))
               [0..<thinSwitch] s0 of
           None \<Rightarrow> None
         | Some s1 \<Rightarrow>
             (let thinSwitch' = (if rep = burnin s1 then thinning s1 else thinSwitch);
                  s2 = (if fixLabels a
                        then
                          (let s' = updateQmatrix
                                      (chooseBestLabelPermutation hung (produceQmatrix s1))
                           in if rep \<ge> burnin s' then storeQmatrix s' else s')
                        else s1);
                  s3 = d_logLikeGroup lg s2;
                  s4 = (if drawAlleleFreqs a
                        then d_logLikeJoint
                               (drawFreqs (gamma_allele a rep) (gamma_admix a rep) s3)
                        else s3);
                  s5 = (if rep \<ge> burnin s4 then add_likelihoods a rep s4 else s4)
              in Some (thinSwitch', s5))))"

text \<open>The statements of \<^verbatim>\<open>perform_MCMC\<close> after the loop, and \<^verbatim>\<open>perform_MCMC\<close>.\<close>

definition finish_Qmatrices :: "run_args \<Rightarrow> MCMCobject_admixture \<Rightarrow> MCMCobject_admixture" where
  "finish_Qmatrices a s0 =
     (let s1 =
        fold (\<lambda>ind s.
          fold (\<lambda>l s.
            fold (\<lambda>p s.
               (let s' = s\<lparr>groupIndex := groupIndex s + 1\<rparr>
                in fold (\<lambda>k s. s\<lparr>Qmatrix_gene :=
                                   put2 (Qmatrix_gene s) (nat (groupIndex s)) k
                                     (dexp (logQmatrix_gene s ! nat (groupIndex s) ! k
                                            - dlog (dbln (samples s))))\<rparr>)
                     [0..<K s'] s'))
              [0..<ploidy_vec s ! ind] s)
            [0..<loci s] s)
          [0..<n s0] (s0\<lparr>groupIndex := - 1\<rparr>);
          s2 =
        fold (\<lambda>ind s.
          (let s' =
             fold (\<lambda>l s.
               fold (\<lambda>p s.
                  (let s' = s\<lparr>groupIndex := groupIndex s + 1\<rparr>
                   in fold (\<lambda>k s. s\<lparr>Qmatrix_ind := put2 (Qmatrix_ind s) ind k
                                      (Qmatrix_ind s ! ind ! k
                                       + Qmatrix_gene s ! nat (groupIndex s) ! k)\<rparr>)
                        [0..<K s'] s'))
                 [0..<ploidy_vec s ! ind] s)
               [0..<loci s] s
           in fold (\<lambda>k s. s\<lparr>Qmatrix_ind := put2 (Qmatrix_ind s) ind k
                              (Qmatrix_ind s ! ind ! k
                               / dbln (ploidy_vec s ! ind * loci s))\<rparr>)
                [0..<K s'] s'))
          [0..<n s1] (s1\<lparr>groupIndex := - 1\<rparr>)
      in if outputQmatrix_pop_on s2
         then
           (let s3 =
              fold (\<lambda>i s.
                fold (\<lambda>k s. s\<lparr>Qmatrix_pop := put2 (Qmatrix_pop s) (pop_index a ! i) k
                                 (Qmatrix_pop s ! (pop_index a ! i) ! k
                                  + Qmatrix_ind s ! i ! k)\<rparr>)
                  [0..<K s] s)
                [0..<n s2] s2
            in fold (\<lambda>i s.
                 fold (\<lambda>k s. s\<lparr>Qmatrix_pop := put2 (Qmatrix_pop s) i k
                                  (Qmatrix_pop s ! i ! k / dbln (uniquePop_counts a ! i))\<rparr>)
                   [0..<K s] s)
                 [0..<length (uniquePops s3)] s3)
         else s2)"

definition perform_MCMC ::
  "(double \<Rightarrow> double) \<Rightarrow> (double list list \<Rightarrow> nat list) \<Rightarrow> run_args
     \<Rightarrow> MCMCobject_admixture \<Rightarrow> MCMCobject_admixture option" where
  "perform_MCMC lg hung a s0 =
     (case ofold (mcmc_rep lg hung a) [0..<burnin s0 + samples s0] (1, s0) of
        None \<Rightarrow> None
      | Some (thinSwitch, s1) \<Rightarrow>
          (let s2 = (if fixLabels a then finish_Qmatrices a s1 else s1)
           in Some (s2\<lparr>harmonic := dlog (dbln (samples s2)) - harmonic s2\<rparr>)))"

text \<open>
  The members that the harmonic mean depends on: the two lengths of the run and the
  accumulator itself.
\<close>

definition hv :: "MCMCobject_admixture \<Rightarrow> nat \<times> nat \<times> double" where
  "hv s = (burnin s, samples s, harmonic s)"

text \<open>
  The chain and the value of \<^verbatim>\<open>thinSwitch\<close> after the first \<open>r\<close> iterations of the loop of
  \<^verbatim>\<open>perform_MCMC\<close>, and the value of \<^verbatim>\<open>logLikeGroup\<close> at the end of iteration \<open>r\<close>.
\<close>

definition iterations ::
  "(double \<Rightarrow> double) \<Rightarrow> (double list list \<Rightarrow> nat list) \<Rightarrow> run_args
     \<Rightarrow> MCMCobject_admixture \<Rightarrow> nat \<Rightarrow> (nat \<times> MCMCobject_admixture) option" where
  "iterations lg hung a s r = ofold (mcmc_rep lg hung a) [0..<r] (1, s)"

definition likelihood_at ::
  "(double \<Rightarrow> double) \<Rightarrow> (double list list \<Rightarrow> nat list) \<Rightarrow> run_args
     \<Rightarrow> MCMCobject_admixture \<Rightarrow> nat \<Rightarrow> double" where
  "likelihood_at lg hung a s r =
     (case iterations lg hung a s (Suc r) of
        None \<Rightarrow> NaN
      | Some (t, s') \<Rightarrow> logLikeGroup s')"

text \<open>The doubles that a sum of exponentials can be.\<close>

fun nonneg_or_nan :: "double \<Rightarrow> bool" where
  "nonneg_or_nan (Fin r) = (0 \<le> r)"
| "nonneg_or_nan PInf = True"
| "nonneg_or_nan NInf = False"
| "nonneg_or_nan NaN = True"

text \<open>
  Arguments for a run of the small chain: no alignment of labels, no draws of
  frequencies, alpha fixed, and every uniform number drawn for a gene copy is 1/4.
\<close>

definition args_S1 :: run_args where
  "args_S1 = \<lparr>
     drawAlleleFreqs = False, storeLoglike = True, fixLabels = False,
     globals_fixAlpha_on = True, pop_index = [0, 0], uniquePop_counts = [2],
     unif_group = (\<lambda>rep thin g. Fin (1 / 4)),
     norm_alpha = (\<lambda>rep thin. Fin 25),
     unif_alpha = (\<lambda>rep thin. Fin (1 / 2)),
     gamma_allele = (\<lambda>rep k l j. Fin 1),
     gamma_admix = (\<lambda>rep i k. Fin 1) \<rparr>"

text \<open>
  The entry of the cost matrix as the specification writes it, and the cost matrix.
\<close>

definition cost_formula :: "MCMCobject_admixture \<Rightarrow> nat \<Rightarrow> nat \<Rightarrow> double" where
  "cost_formula s k1 k2 =
     (\<Sum>g\<leftarrow>[0..<geneCopies s].
        Qmatrix_gene_new s ! g ! k1
        * (logQmatrix_gene_new s ! g ! k1 - logQmatrix_gene_running s ! g ! k2))"

text \<open>The dimensions of the vectors that the alignment reads and writes.\<close>

definition align_dims :: "MCMCobject_admixture \<Rightarrow> bool" where
  "align_dims s =
     (length (linearGroup s) = geneCopies s
      \<and> length (alleleCounts s) = K s \<and> length (alleleCountsTotals s) = K s
      \<and> length (admixCounts s) = n s \<and> (\<forall>i<n s. length (admixCounts s ! i) = K s)
      \<and> length (logQmatrix_gene_new s) = geneCopies s
      \<and> (\<forall>g<geneCopies s. length (logQmatrix_gene_new s ! g) = K s)
      \<and> length (costMat s) = K s \<and> (\<forall>k<K s. length (costMat s ! k) = K s)
      \<and> length (bestPermOrder s) = K s)"

definition cost_matrix :: "MCMCobject_admixture \<Rightarrow> double list list" where
  "cost_matrix s = map (\<lambda>k1. map (cost_formula s k1) [0..<K s]) [0..<K s]"

text \<open>
  What the loop over \<^verbatim>\<open>bestPermOrder[bestPerm[k]] = k\<close> makes of a vector \<open>v\<close>.
\<close>

definition inverse_order :: "nat list \<Rightarrow> nat list \<Rightarrow> nat list" where
  "inverse_order q v = fold (\<lambda>k v. v[q ! k := k]) [0..<length v] v"

text \<open>
  The small chain with Q matrices for which exchanging the two labels is cheaper than
  keeping them.
\<close>

definition chain_swap :: MCMCobject_admixture where
  "chain_swap = chain_S1\<lparr>
     Qmatrix_gene_new := [[Fin (3 / 4), Fin (1 / 4)], [Fin (3 / 4), Fin (1 / 4)]],
     logQmatrix_gene_new := [[Fin (- 1), Fin (- 2)], [Fin (- 1), Fin (- 2)]],
     logQmatrix_gene_running := [[Fin (- 3), Fin (- 1)], [Fin (- 3), Fin (- 1)]]\<rparr>"

section \<open>Facts about doubles\<close>

lemma zero_double_Fin [simp]: "(0::double) = Fin 0"
  by (simp add: zero_double_def)

lemma one_double_Fin [simp]: "(1::double) = Fin 1"
  by (simp add: one_double_def)

lemma numeral_double_Fin [simp]: "(numeral k :: double) = Fin (numeral k)"
  by (induction k)
    (simp_all only: numeral_One numeral_Bit0 numeral_Bit1 one_double_def plus_double.simps)

lemma add_Fin_0 [simp]: "a + Fin 0 = a" "Fin 0 + a = a"
  by (cases a; simp)+

lemma minus_Fin [simp]: "Fin x - Fin y = Fin (x - y)"
  by (simp add: minus_double_def)

lemma dbl_Fin: "dbl i = Fin (of_int i)"
  by (simp add: dbl_def)

lemma dbln_Fin: "dbln m = Fin (of_nat m)"
  by (simp add: dbln_def)

lemma upt_0_2 [simp]: "[0..<2] = [0, Suc 0]"
  by (simp add: upt_rec)

section \<open>Facts about rounding\<close>

lemma rne_cases:
  "rne u x = of_int \<lfloor>x / u\<rfloor> * u \<and> x / u - of_int \<lfloor>x / u\<rfloor> \<le> 1 / 2
   \<or> rne u x = (of_int \<lfloor>x / u\<rfloor> + 1) * u \<and> 1 / 2 \<le> x / u - of_int \<lfloor>x / u\<rfloor>"
  by (auto simp: rne_def Let_def)

lemma rne_le:
  assumes "0 < u" and "x \<le> of_int k * u"
  shows "rne u x \<le> of_int k * u"
proof -
  let ?f = "\<lfloor>x / u\<rfloor>"
  have q: "x / u \<le> of_int k"
    using assms by (simp add: pos_divide_le_eq)
  then have fk: "?f \<le> k"
    by (simp add: floor_le_iff)
  consider "rne u x = of_int ?f * u" | "rne u x = (of_int ?f + 1) * u" "1 / 2 \<le> x / u - of_int ?f"
    using rne_cases [of u x] by blast
  then show ?thesis
  proof cases
    case 1
    have "of_int ?f * u \<le> of_int k * u"
      using fk assms(1) by (simp add: mult_right_mono)
    then show ?thesis using 1 by simp
  next
    case 2
    have "?f \<noteq> k"
    proof
      assume "?f = k"
      then have "x / u - of_int ?f \<le> 0" using q by simp
      then show False using 2(2) by simp
    qed
    then have "?f + 1 \<le> k" using fk by simp
    then have "(of_int ?f + 1 :: real) \<le> of_int k"
      by (metis of_int_1 of_int_add of_int_le_iff)
    then have "(of_int ?f + 1) * u \<le> of_int k * u"
      using assms(1) by (simp add: mult_right_mono)
    then show ?thesis using 2 by simp
  qed
qed

lemma rne_ge:
  assumes "0 < u" and "of_int k * u \<le> x"
  shows "of_int k * u \<le> rne u x"
proof -
  let ?f = "\<lfloor>x / u\<rfloor>"
  have q: "of_int k \<le> x / u"
    using assms by (simp add: pos_le_divide_eq)
  then have fk: "k \<le> ?f"
    by (simp add: le_floor_iff)
  then have 1: "of_int k * u \<le> of_int ?f * u"
    using assms(1) by (simp add: mult_right_mono)
  have "(of_int ?f :: real) \<le> of_int ?f + 1" by simp
  then have "of_int ?f * u \<le> (of_int ?f + 1) * u"
    using assms(1) by (intro mult_right_mono) simp_all
  then show ?thesis
    using 1 rne_cases [of u x] by auto
qed

lemma rne_err:
  assumes "0 < u"
  shows "\<bar>rne u x - x\<bar> \<le> u / 2"
proof -
  let ?f = "\<lfloor>x / u\<rfloor>"
  let ?d = "x / u - of_int ?f"
  have d: "0 \<le> ?d" "?d < 1"
    by linarith+
  have x: "x = (of_int ?f + ?d) * u"
    using assms by simp
  consider "rne u x = of_int ?f * u" "?d \<le> 1 / 2"
    | "rne u x = (of_int ?f + 1) * u" "1 / 2 \<le> ?d"
    using rne_cases [of u x] by blast
  then show ?thesis
  proof cases
    case 1
    have "rne u x - x = - (?d * u)"
      by (subst (2) x) (simp add: 1 algebra_simps)
    moreover have "0 \<le> ?d * u" "?d * u \<le> 1 / 2 * u"
      using d 1 assms by (simp_all add: mult_right_mono)
    ultimately show ?thesis by simp
  next
    case 2
    have "rne u x - x = (1 - ?d) * u"
      by (subst (2) x) (simp add: 2 algebra_simps)
    moreover have "0 \<le> (1 - ?d) * u" "(1 - ?d) * u \<le> 1 / 2 * u"
      using d 2 assms by (simp_all add: mult_right_mono)
    ultimately show ?thesis by simp
  qed
qed

lemma b64_ulp_pos [simp]: "0 < b64_ulp x"
  by (simp add: b64_ulp_def)

lemma b64_exp_ge: "- 1022 \<le> b64_exp x"
  by (simp add: b64_exp_def)

lemma b64_exp_le:
  assumes "\<bar>x\<bar> < 2 ^ m" and "0 < m"
  shows "b64_exp x \<le> int m - 1"
proof (cases "x = 0")
  case True
  then show ?thesis using assms(2) by (simp add: b64_exp_def)
next
  case False
  have "log 2 \<bar>x\<bar> < log 2 (2 ^ m)"
    using assms(1) False by (subst log_less_cancel_iff) simp_all
  then have "log 2 \<bar>x\<bar> < of_nat m"
    by (simp add: log_nat_power)
  then have "\<lfloor>log 2 \<bar>x\<bar>\<rfloor> < int m"
    by (simp add: floor_less_iff)
  then show ?thesis
    using False assms(2) by (simp add: b64_exp_def)
qed


lemma b64_ulp_le:
  assumes "\<bar>x\<bar> < 2 ^ m" and "0 < m"
  shows "b64_ulp x \<le> 2 powr (real m - 53)"
proof -
  have "real_of_int (b64_exp x) \<le> real m - 1"
    using b64_exp_le [OF assms] by linarith
  then show ?thesis
    unfolding b64_ulp_def by (intro powr_mono) simp_all
qed

lemma b64_ulp_inverse_power:
  assumes "b64_exp y \<le> 52"
  shows "b64_ulp y = 1 / 2 ^ nat (52 - b64_exp y)"
proof -
  have "real_of_int (b64_exp y) - 52 = - real (nat (52 - b64_exp y))"
    using assms by simp
  then show ?thesis
    unfolding b64_ulp_def by (simp only: powr_minus_divide powr_realpow zero_less_numeral)
qed

lemma int_on_grid:
  assumes "\<bar>y\<bar> < 2 ^ 53"
  shows "\<exists>k. real_of_int m = of_int k * b64_ulp y"
proof -
  have e: "b64_exp y \<le> 52"
    using b64_exp_le [OF assms] by simp
  have "real_of_int m = of_int (m * 2 ^ nat (52 - b64_exp y)) * b64_ulp y"
    by (simp add: b64_ulp_inverse_power [OF e])
  then show ?thesis ..
qed

lemma b64_round_le_int:
  assumes "\<bar>y\<bar> < 2 ^ 53" and "y \<le> of_int m"
  shows "b64_round y \<le> of_int m"
proof -
  obtain k where k: "real_of_int m = of_int k * b64_ulp y"
    using int_on_grid [OF assms(1)] ..
  show ?thesis
    unfolding b64_round_def k using assms(2) by (intro rne_le) (simp_all add: k)
qed

lemma b64_round_ge_int:
  assumes "\<bar>y\<bar> < 2 ^ 53" and "of_int m \<le> y"
  shows "of_int m \<le> b64_round y"
proof -
  obtain k where k: "real_of_int m = of_int k * b64_ulp y"
    using int_on_grid [OF assms(1)] ..
  show ?thesis
    unfolding b64_round_def k using assms(2) by (intro rne_ge) (simp_all add: k)
qed


lemma b64_round_nonpos: "y \<le> 0 \<Longrightarrow> b64_round y \<le> 0"
  using rne_le [of "b64_ulp y" y 0] by (simp add: b64_round_def)

lemma b64_round_err:
  assumes "\<bar>y\<bar> < 2 ^ 58"
  shows "\<bar>b64_round y - y\<bar> \<le> 16"
proof -
  have "b64_ulp y \<le> 2 powr (real 58 - 53)"
    using assms by (intro b64_ulp_le) simp_all
  also have "\<dots> = 32"
    by simp
  finally have "b64_ulp y / 2 \<le> 16"
    by simp
  then show ?thesis
    using rne_err [of "b64_ulp y" y] by (simp add: b64_round_def)
qed

lemma round64_Fin:
  assumes "\<bar>y\<bar> < 2 ^ 58"
  shows "round64 y = Fin (b64_round y)"
proof -
  have "\<bar>b64_round y\<bar> \<le> \<bar>y\<bar> + 16"
    using b64_round_err [OF assms] by linarith
  also have "\<dots> < 2 ^ 58 + 16"
    using assms by simp
  also have "\<dots> < (2 :: real) ^ 1024"
    by simp
  finally show ?thesis
    by (simp add: round64_def)
qed

lemma round64_int:
  assumes "\<bar>m\<bar> < 2 ^ 53"
  shows "round64 (of_int m) = Fin (of_int m)"
proof -
  have a: "\<bar>real_of_int m\<bar> < 2 ^ 53"
    using assms by (metis of_int_abs of_int_less_numeral_power_cancel_iff)
  then have b: "\<bar>real_of_int m\<bar> < 2 ^ 58"
    by (rule less_trans) simp
  have "b64_round (of_int m) \<le> of_int m" "of_int m \<le> b64_round (real_of_int m)"
    using a by (simp_all add: b64_round_le_int b64_round_ge_int)
  then show ?thesis
    by (simp add: round64_Fin [OF b])
qed


section \<open>The update of alpha: reflection\<close>






lemma round64_numeral:
  "(numeral k :: int) < 2 ^ 53 \<Longrightarrow> round64 (numeral k) = Fin (numeral k)"
  using round64_int [of "numeral k"] by simp

lemma alpha_reflect_25: "alpha_reflect (Fin 25) = Some (Fin 5)"
  by (simp add: alpha_reflect_def wrap_up.simps wrap_down.simps deq_def fsub_def
      round64_numeral)











section \<open>The update of alpha: acceptance and frame\<close>

lemma fold_pair_sum:
  fixes f g :: "'a \<Rightarrow> double"
  shows "fold (\<lambda>k (po, pn). (po + f k, pn + g k)) xs (a, b)
         = (a + sum_list (map f xs), b + sum_list (map g xs))"
  by (induction xs arbitrary: a b) (simp_all add: add.assoc)

lemma alpha_logProbs_eq:
  "alpha_logProbs lg s a' = (logp_alpha lg s (alpha s), logp_alpha lg s a')"
proof -
  have "fold (\<lambda>i (po, pn).
        fold (\<lambda>k (po, pn).
               (po + (lg (dbl (admixCounts s ! i ! k) + alpha s) - lg (alpha s)),
                pn + (lg (dbl (admixCounts s ! i ! k) + a') - lg a')))
          [0..<K s]
          (po + (lg (dbln (K s) * alpha s)
                 - lg (dbl (admixCountsTotals s ! i) + dbln (K s) * alpha s)),
           pn + (lg (dbln (K s) * a')
                 - lg (dbl (admixCountsTotals s ! i) + dbln (K s) * a'))))
       xs (p, q)
     = (p + (\<Sum>i\<leftarrow>xs.
        (lg (dbln (K s) * alpha s) - lg (dbl (admixCountsTotals s ! i) + dbln (K s) * alpha s))
        + (\<Sum>k\<leftarrow>[0..<K s]. lg (dbl (admixCounts s ! i ! k) + alpha s) - lg (alpha s))),
        q + (\<Sum>i\<leftarrow>xs.
        (lg (dbln (K s) * a') - lg (dbl (admixCountsTotals s ! i) + dbln (K s) * a'))
        + (\<Sum>k\<leftarrow>[0..<K s]. lg (dbl (admixCounts s ! i ! k) + a') - lg a')))"
    for xs p q
    by (induction xs arbitrary: p q)
      (simp_all only: fold_simps fold_pair_sum split list.map sum_list.Nil sum_list.Cons
        add.assoc add_0_right comp_apply)
  from this [of "[0..<n s]" 0 0] show ?thesis
    by (simp only: alpha_logProbs_def logp_alpha_def add_0_left)
qed

lemma logp_alpha_beta: "logp_alpha lg (s\<lparr>beta := b\<rparr>) a = logp_alpha lg s a"
  by (simp add: logp_alpha_def)

text \<open>
  Claim C4. The two sums that \<^verbatim>\<open>alpha_update\<close> accumulates are \<open>log p\<close> of the current
  alpha and of the proposal, as the specification writes it. The proposal replaces alpha
  exactly when the uniform number is below the exponential of their difference; for a
  uniform number \<open>r\<close> between 0 and 1 and a finite difference \<open>d\<close> these are the
  \<open>r\<close> below \<open>min 1 (exp d)\<close>, an interval of that length. Nothing else enters the
  test: no prior term, and the result does not depend on beta.
\<close>

theorem alpha_update_acceptance:
  "alpha_logProbs lg s a' = (logp_alpha lg s (alpha s), logp_alpha lg s a')
   \<and> alpha_update_step lg x u s =
       (case alpha_reflect x of
          None \<Rightarrow> None
        | Some a' \<Rightarrow>
            Some (if u < dexp (logp_alpha lg s a' - logp_alpha lg s (alpha s))
                  then s\<lparr>alpha := a'\<rparr> else s))
   \<and> (\<forall>r d a'. 0 \<le> r \<and> r < 1 \<and> alpha_reflect x = Some a'
          \<and> logp_alpha lg s a' - logp_alpha lg s (alpha s) = Fin d \<longrightarrow>
         alpha_update_step lg x (Fin r) s
           = Some (if r < min 1 (exp d) then s\<lparr>alpha := a'\<rparr> else s))
   \<and> alpha_update_step lg x u (s\<lparr>beta := b\<rparr>)
       = map_option (\<lambda>t. t\<lparr>beta := b\<rparr>) (alpha_update_step lg x u s)
   \<and> logp_alpha lg (s\<lparr>beta := b\<rparr>) a' = logp_alpha lg s a'"
  by (simp add: alpha_logProbs_eq alpha_update_step_def logp_alpha_beta split: option.split)

lemma logp_S1: "logp_alpha (\<lambda>y. y * y) chain_S1 (Fin a) = Fin (- 4 * a)"
  by (simp add: logp_alpha_def chain_S1_def dbl_Fin dbln_Fin algebra_simps)

lemma exp_m16: "\<not> 1 / 2 < min 1 (exp (- 16 :: real))"
proof -
  have "1 + 16 \<le> exp (16::real)" by (rule exp_ge_add_one_self)
  then have "exp (- 16 :: real) \<le> 1 / 17"
    by (simp add: exp_minus field_simps)
  then show ?thesis by simp
qed

theorem alpha_update_acceptance_witness:
  "alpha_update_step (\<lambda>y. y * y) (Fin 25) (Fin (1 / 2)) chain_S1 = Some chain_S1
   \<and> alpha_update_step (\<lambda>y. Fin 0) (Fin 25) (Fin (1 / 2)) chain_S1 = Some (chain_S1\<lparr>alpha := Fin 5\<rparr>)"
proof -
  have a: "alpha chain_S1 = Fin 1" by (simp add: chain_S1_def)
  have d: "logp_alpha (\<lambda>y. y * y) chain_S1 (Fin 5) - logp_alpha (\<lambda>y. y * y) chain_S1 (alpha chain_S1) = Fin (- 16)"
    by (simp add: a logp_S1)
  have d0: "logp_alpha (\<lambda>y. Fin 0) chain_S1 (Fin 5) - logp_alpha (\<lambda>y. Fin 0) chain_S1 (alpha chain_S1) = Fin 0"
    by (simp add: logp_alpha_def chain_S1_def dbl_Fin dbln_Fin)
  have 1: "alpha_update_step (\<lambda>y. y * y) (Fin 25) (Fin (1 / 2)) chain_S1 = Some chain_S1"
    using alpha_update_acceptance [of "\<lambda>y. y * y" chain_S1 "Fin 5" "Fin 25" 0 0] alpha_reflect_25 d exp_m16
    by (auto simp del: zero_double_Fin)
  have 2: "alpha_update_step (\<lambda>y. Fin 0) (Fin 25) (Fin (1 / 2)) chain_S1 = Some (chain_S1\<lparr>alpha := Fin 5\<rparr>)"
    using alpha_update_acceptance [of "\<lambda>y. Fin 0" chain_S1 "Fin 5" "Fin 25" 0 0] alpha_reflect_25 d0
    by (auto simp del: zero_double_Fin)
  from 1 2 show ?thesis by simp
qed

text \<open>
  Claim C10. A call of \<^verbatim>\<open>alpha_update\<close> that returns changes no member of the chain but
  alpha: the group assignments, the four count tensors and every Q matrix are as before.
  When the proposal is rejected, the chain is as before altogether.
\<close>

theorem alpha_update_frame:
  assumes "alpha_update_step lg x u s = Some s'"
  shows "s' = s\<lparr>alpha := alpha s'\<rparr>
    \<and> linearGroup s' = linearGroup s
    \<and> alleleCounts s' = alleleCounts s \<and> alleleCountsTotals s' = alleleCountsTotals s
    \<and> admixCounts s' = admixCounts s \<and> admixCountsTotals s' = admixCountsTotals s
    \<and> Qmatrix_gene_new s' = Qmatrix_gene_new s
    \<and> logQmatrix_gene_new s' = logQmatrix_gene_new s
    \<and> logQmatrix_gene_running s' = logQmatrix_gene_running s
    \<and> logQmatrix_gene s' = logQmatrix_gene s
    \<and> Qmatrix_gene s' = Qmatrix_gene s \<and> Qmatrix_ind s' = Qmatrix_ind s
    \<and> Qmatrix_pop s' = Qmatrix_pop s
    \<and> (\<forall>a'. alpha_reflect x = Some a'
          \<and> \<not> u < dexp (snd (alpha_logProbs lg s a') - fst (alpha_logProbs lg s a'))
          \<longrightarrow> s' = s)"
  using assms by (auto simp: alpha_update_step_def split: option.splits prod.splits if_splits)

theorem alpha_update_frame_witness:
  "alpha_update_step (\<lambda>y. y * y) (Fin 25) (Fin (1 / 2)) chain_S1 = Some chain_S1
   \<and> alpha_reflect (Fin 25) = Some (Fin 5)
   \<and> \<not> Fin (1 / 2) < dexp (snd (alpha_logProbs (\<lambda>y. y * y) chain_S1 (Fin 5))
                          - fst (alpha_logProbs (\<lambda>y. y * y) chain_S1 (Fin 5)))
   \<and> chain_S1 = chain_S1\<lparr>alpha := alpha chain_S1\<rparr>
   \<and> alpha_update_step (\<lambda>y. Fin 0) (Fin 25) (Fin (1 / 2)) chain_S1 = Some (chain_S1\<lparr>alpha := Fin 5\<rparr>)
   \<and> linearGroup (chain_S1\<lparr>alpha := Fin 5\<rparr>) = linearGroup chain_S1"
proof -
  have a: "alpha chain_S1 = Fin 1" by (simp add: chain_S1_def)
  have lp: "alpha_logProbs (\<lambda>y. y * y) chain_S1 (Fin 5) = (Fin (- 4), Fin (- 20))"
    by (simp add: alpha_logProbs_eq logp_S1 a)
  have lp0: "alpha_logProbs (\<lambda>y. Fin 0) chain_S1 (Fin 5) = (Fin 0, Fin 0)"
    by (simp add: alpha_logProbs_eq logp_alpha_def chain_S1_def dbl_Fin dbln_Fin)
  have rej: "\<not> Fin (1 / 2) < dexp (snd (alpha_logProbs (\<lambda>y. y * y) chain_S1 (Fin 5))
                          - fst (alpha_logProbs (\<lambda>y. y * y) chain_S1 (Fin 5)))"
    using exp_m16 by (simp add: lp)
  have 1: "alpha_update_step (\<lambda>y. y * y) (Fin 25) (Fin (1 / 2)) chain_S1 = Some chain_S1"
    using rej by (simp add: alpha_update_step_def alpha_reflect_25 lp)
  have 2: "alpha_update_step (\<lambda>y. Fin 0) (Fin 25) (Fin (1 / 2)) chain_S1 = Some (chain_S1\<lparr>alpha := Fin 5\<rparr>)"
    by (simp add: alpha_update_step_def alpha_reflect_25 lp0)
  show ?thesis
    using alpha_update_frame [OF 1] alpha_update_frame [OF 2] 1 2 rej alpha_reflect_25
    by simp
qed

section \<open>What a loop leaves unchanged\<close>

lemma fold_obs:
  assumes "\<And>x s. obs (f x s) = obs s"
  shows "obs (fold f xs s) = obs s"
  using assms by (induction xs arbitrary: s) simp_all

lemma ofold_obs:
  assumes "\<And>x s s'. f x s = Some s' \<Longrightarrow> obs s' = obs s"
    and "ofold f xs s = Some s'"
  shows "obs s' = obs s"
  using assms(2)
proof (induction xs arbitrary: s)
  case Nil
  then show ?case by simp
next
  case (Cons x xs)
  then show ?case
    by (auto split: option.splits dest!: assms(1))
qed

lemma fold_pair_obs:
  assumes "\<And>x r s. obs (snd (f x (r, s))) = obs s"
  shows "obs (snd (fold f xs (r, s))) = obs s"
  using assms
proof (induction xs arbitrary: r s)
  case Nil
  then show ?case by simp
next
  case (Cons x xs)
  obtain r' s' where e: "f x (r, s) = (r', s')" by (cases "f x (r, s)")
  have "obs s' = obs s" using Cons.prems [of x r s] e by simp
  then show ?case using Cons.IH [of r' s'] Cons.prems e by simp
qed

lemma hv_updates [simp]:
  "hv (s\<lparr>data := v0\<rparr>) = hv s"
  "hv (s\<lparr>K := v1\<rparr>) = hv s"
  "hv (s\<lparr>n := v2\<rparr>) = hv s"
  "hv (s\<lparr>loci := v3\<rparr>) = hv s"
  "hv (s\<lparr>J := v4\<rparr>) = hv s"
  "hv (s\<lparr>ploidy_vec := v5\<rparr>) = hv s"
  "hv (s\<lparr>uniquePops := v6\<rparr>) = hv s"
  "hv (s\<lparr>geneCopies := v7\<rparr>) = hv s"
  "hv (s\<lparr>lambda := v8\<rparr>) = hv s"
  "hv (s\<lparr>fixAlpha_on := v9\<rparr>) = hv s"
  "hv (s\<lparr>alpha := v10\<rparr>) = hv s"
  "hv (s\<lparr>alphaPropSD := v11\<rparr>) = hv s"
  "hv (s\<lparr>beta := v12\<rparr>) = hv s"
  "hv (s\<lparr>outputQmatrix_pop_on := v13\<rparr>) = hv s"
  "hv (s\<lparr>thinning := v14\<rparr>) = hv s"
  "hv (s\<lparr>groupIndex := v15\<rparr>) = hv s"
  "hv (s\<lparr>linearGroup := v16\<rparr>) = hv s"
  "hv (s\<lparr>alleleCounts := v17\<rparr>) = hv s"
  "hv (s\<lparr>alleleCountsTotals := v18\<rparr>) = hv s"
  "hv (s\<lparr>alleleFreqs := v19\<rparr>) = hv s"
  "hv (s\<lparr>admixCounts := v20\<rparr>) = hv s"
  "hv (s\<lparr>admixCountsTotals := v21\<rparr>) = hv s"
  "hv (s\<lparr>admixFreqs := v22\<rparr>) = hv s"
  "hv (s\<lparr>old_alleleCounts := v23\<rparr>) = hv s"
  "hv (s\<lparr>old_alleleCountsTotals := v24\<rparr>) = hv s"
  "hv (s\<lparr>old_admixCounts := v25\<rparr>) = hv s"
  "hv (s\<lparr>probVec := v26\<rparr>) = hv s"
  "hv (s\<lparr>probVecSum := v27\<rparr>) = hv s"
  "hv (s\<lparr>logQmatrix_gene_old := v28\<rparr>) = hv s"
  "hv (s\<lparr>logQmatrix_gene_new := v29\<rparr>) = hv s"
  "hv (s\<lparr>Qmatrix_gene_new := v30\<rparr>) = hv s"
  "hv (s\<lparr>logQmatrix_gene_running := v31\<rparr>) = hv s"
  "hv (s\<lparr>logQmatrix_gene := v32\<rparr>) = hv s"
  "hv (s\<lparr>Qmatrix_gene := v33\<rparr>) = hv s"
  "hv (s\<lparr>Qmatrix_ind := v34\<rparr>) = hv s"
  "hv (s\<lparr>Qmatrix_pop := v35\<rparr>) = hv s"
  "hv (s\<lparr>costMat := v36\<rparr>) = hv s"
  "hv (s\<lparr>bestPerm := v37\<rparr>) = hv s"
  "hv (s\<lparr>bestPermOrder := v38\<rparr>) = hv s"
  "hv (s\<lparr>logLikeGroup := v39\<rparr>) = hv s"
  "hv (s\<lparr>logLikeGroup_sum := v40\<rparr>) = hv s"
  "hv (s\<lparr>logLikeGroup_store := v41\<rparr>) = hv s"
  "hv (s\<lparr>logLikeGroup_sumSquared := v42\<rparr>) = hv s"
  "hv (s\<lparr>logLikeJoint := v43\<rparr>) = hv s"
  "hv (s\<lparr>logLikeJoint_sum := v44\<rparr>) = hv s"
  "hv (s\<lparr>logLikeJoint_sumSquared := v45\<rparr>) = hv s"
  by (simp_all add: hv_def)

lemma hv_fold [simp]: "(\<And>x s. hv (f x s) = hv s) \<Longrightarrow> hv (fold f xs s) = hv s"
  by (rule fold_obs)

lemma hv_fold_pair [simp]:
  "(\<And>x r s. hv (snd (f x (r, s))) = hv s) \<Longrightarrow> hv (snd (fold f xs (r, s))) = hv s"
  by (rule fold_pair_obs)

lemma hv_weight_step [simp]: "hv (weight_step b ind l p k s) = hv s"
  by (simp add: weight_step_def Let_def)

lemma hv_count_copy [simp]: "hv (count_copy d ind l p s) = hv s"
  by (simp add: count_copy_def Let_def)

lemma hv_group_update_copy:
  "group_update_copy u ind l p s = Some s' \<Longrightarrow> hv s' = hv s"
  by (auto simp: group_update_copy_def Let_def split: option.splits if_splits)

lemma hv_group_update: "group_update us s = Some s' \<Longrightarrow> hv s' = hv s"
proof -
  assume a: "group_update us s = Some s'"
  have "hv s' = hv (s\<lparr>groupIndex := - 1\<rparr>)"
    using a unfolding group_update_def
    by (rule ofold_obs [rotated]) (erule ofold_obs [rotated], erule ofold_obs [rotated], erule hv_group_update_copy)
  then show ?thesis by simp
qed

lemma hv_alpha_update_step: "alpha_update_step lg x u s = Some s' \<Longrightarrow> hv s' = hv s"
  by (auto simp: alpha_update_step_def split: option.splits prod.splits if_splits)

lemma hv_produceQmatrix [simp]: "hv (produceQmatrix s) = hv s"
  by (simp add: produceQmatrix_def produceQmatrix_copy_def Let_def)

lemma hv_fill_costMat [simp]: "hv (fill_costMat s) = hv s"
  by (simp add: fill_costMat_def)

lemma hv_fill_bestPermOrder [simp]: "hv (snd (fill_bestPermOrder s)) = hv s"
  by (simp add: fill_bestPermOrder_def split_def)

lemma hv_swap_labels [simp]: "hv (swap_labels s) = hv s"
  by (simp add: swap_labels_def Let_def)

lemma hv_chooseBestLabelPermutation [simp]: "hv (chooseBestLabelPermutation hung s) = hv s"
  by (simp add: chooseBestLabelPermutation_def Let_def split_def)

lemma hv_updateQmatrix [simp]: "hv (updateQmatrix s) = hv s"
  by (simp add: updateQmatrix_def)

lemma hv_storeQmatrix [simp]: "hv (storeQmatrix s) = hv s"
  by (simp add: storeQmatrix_def Let_def)

lemma hv_d_logLikeGroup [simp]: "hv (d_logLikeGroup lg s) = hv s"
  by (simp add: d_logLikeGroup_def Let_def)

lemma hv_drawFreqs [simp]: "hv (drawFreqs ga gb s) = hv s"
  by (simp add: drawFreqs_def Let_def split_def)

lemma hv_d_logLikeJoint [simp]: "hv (d_logLikeJoint s) = hv s"
  by (simp add: d_logLikeJoint_def Let_def)

lemma ofold_append:
  "ofold f (xs @ ys) s = (case ofold f xs s of None \<Rightarrow> None | Some t \<Rightarrow> ofold f ys t)"
  by (induction xs arbitrary: s) (simp_all split: option.splits)

lemma iterations_Suc:
  "iterations lg hung a s (Suc r) =
     (case iterations lg hung a s r of None \<Rightarrow> None | Some st \<Rightarrow> mcmc_rep lg hung a r st)"
  by (simp add: iterations_def ofold_append split: option.splits)

lemma hv_thin_loop:
  assumes "ofold (\<lambda>thin s.
                 (case group_update (unif_group a rep thin) s of
                    None \<Rightarrow> None
                  | Some s' \<Rightarrow>
                      if \<not> globals_fixAlpha_on a
                      then alpha_update_step lg (norm_alpha a rep thin) (unif_alpha a rep thin) s'
                      else Some s')) xs s = Some s1"
  shows "hv s1 = hv s"
  using assms
proof (rule ofold_obs [rotated])
  fix x s s'
  assume "(case group_update (unif_group a rep x) s of
             None \<Rightarrow> None
           | Some s' \<Rightarrow>
               if \<not> globals_fixAlpha_on a
               then alpha_update_step lg (norm_alpha a rep x) (unif_alpha a rep x) s'
               else Some s') = Some s'"
  then obtain s1 where 1: "group_update (unif_group a rep x) s = Some s1"
    and 2: "s' = s1 \<or> alpha_update_step lg (norm_alpha a rep x) (unif_alpha a rep x) s1 = Some s'"
    by (auto split: option.splits if_splits)
  from 1 have "hv s1 = hv s" by (rule hv_group_update)
  moreover from 2 have "hv s' = hv s1" by (auto dest: hv_alpha_update_step)
  ultimately show "hv s' = hv s" by simp
qed

lemma add_likelihoods_fields:
  "burnin (add_likelihoods a rep s) = burnin s"
  "samples (add_likelihoods a rep s) = samples s"
  "logLikeGroup (add_likelihoods a rep s) = logLikeGroup s"
  "harmonic (add_likelihoods a rep s) = logSum (harmonic s) (- logLikeGroup s)"
  by (simp_all add: add_likelihoods_def Let_def)

lemma logLikeGroup_after [simp]:
  "logLikeGroup (drawFreqs ga gb s) = logLikeGroup s"
  "logLikeGroup (d_logLikeJoint s) = logLikeGroup s"
  by (simp_all add: drawFreqs_def d_logLikeJoint_def Let_def split_def fold_obs [where obs = logLikeGroup]
        fold_pair_obs [where obs = logLikeGroup])

lemma mcmc_rep_harmonic:
  assumes "mcmc_rep lg hung a rep (t, s) = Some (t', s')"
  shows "burnin s' = burnin s \<and> samples s' = samples s
    \<and> harmonic s' = (if burnin s \<le> rep then logSum (harmonic s) (- logLikeGroup s')
                      else harmonic s)"
proof -
  from assms obtain s1 where
    s1: "ofold (\<lambda>thin s.
                 (case group_update (unif_group a rep thin) s of
                    None \<Rightarrow> None
                  | Some s' \<Rightarrow>
                      if \<not> globals_fixAlpha_on a
                      then alpha_update_step lg (norm_alpha a rep thin) (unif_alpha a rep thin) s'
                      else Some s')) [0..<t] s = Some s1"
    by (auto simp: mcmc_rep_def split: option.splits)
  define s2 where "s2 = (if fixLabels a
                        then
                          (let s' = updateQmatrix
                                      (chooseBestLabelPermutation hung (produceQmatrix s1))
                           in if rep \<ge> burnin s' then storeQmatrix s' else s')
                        else s1)"
  define s4 where "s4 = (if drawAlleleFreqs a
                        then d_logLikeJoint
                               (drawFreqs (gamma_allele a rep) (gamma_admix a rep) (d_logLikeGroup lg s2))
                        else d_logLikeGroup lg s2)"
  have s': "s' = (if rep \<ge> burnin s4 then add_likelihoods a rep s4 else s4)"
    using assms s1 by (auto simp: mcmc_rep_def Let_def s2_def s4_def)
  have "hv s1 = hv s" using s1 by (rule hv_thin_loop)
  moreover have "hv s2 = hv s1" by (simp add: s2_def Let_def)
  moreover have "hv s4 = hv s2" by (simp add: s4_def)
  ultimately have h: "hv s4 = hv s" by simp
  then have b: "burnin s4 = burnin s" "samples s4 = samples s" "harmonic s4 = harmonic s"
    by (simp_all add: hv_def)
  show ?thesis
    by (simp add: s' b add_likelihoods_fields)
qed

lemma dexp_dlog: "nonneg_or_nan x \<Longrightarrow> dexp (dlog x) = x"
  by (cases x) auto

lemma nonneg_dexp [simp]: "nonneg_or_nan (dexp x)"
  by (cases x) auto

lemma nonneg_add: "nonneg_or_nan x \<Longrightarrow> nonneg_or_nan y \<Longrightarrow> nonneg_or_nan (x + y)"
  by (cases x; cases y) auto

lemma nonneg_sum_list: "(\<And>x. x \<in> set xs \<Longrightarrow> nonneg_or_nan x) \<Longrightarrow> nonneg_or_nan (sum_list xs)"
  by (induction xs) (auto intro: nonneg_add)

lemma logSum_dlog:
  "nonneg_or_nan x \<Longrightarrow> logSum (dlog x) y = dlog (x + dexp y)"
  by (simp add: logSum_def dexp_dlog)

lemma harmonic_invariant:
  assumes "harmonic s = NInf"
  shows "iterations lg hung a s r = Some (t, sr) \<Longrightarrow>
    burnin sr = burnin s \<and> samples sr = samples s
    \<and> harmonic sr = dlog (\<Sum>q\<leftarrow>[burnin s..<r]. dexp (- likelihood_at lg hung a s q))"
proof (induction r arbitrary: t sr)
  case 0
  then show ?case
    using assms by (simp add: iterations_def)
next
  case (Suc r)
  from Suc.prems obtain t0 s0 where
    it: "iterations lg hung a s r = Some (t0, s0)" and
    st: "mcmc_rep lg hung a r (t0, s0) = Some (t, sr)"
    by (auto simp: iterations_Suc split: option.splits)
  from Suc.IH [OF it] have
    ih: "burnin s0 = burnin s" "samples s0 = samples s"
      "harmonic s0 = dlog (\<Sum>q\<leftarrow>[burnin s..<r]. dexp (- likelihood_at lg hung a s q))"
    by simp_all
  have v: "likelihood_at lg hung a s r = logLikeGroup sr"
    using Suc.prems by (simp add: likelihood_at_def)
  have nn: "nonneg_or_nan (\<Sum>q\<leftarrow>[burnin s..<r]. dexp (- likelihood_at lg hung a s q))"
    by (rule nonneg_sum_list) auto
  from mcmc_rep_harmonic [OF st] have
    step: "burnin sr = burnin s0" "samples sr = samples s0"
      "harmonic sr = (if burnin s0 \<le> r then logSum (harmonic s0) (- logLikeGroup sr)
                      else harmonic s0)"
    by simp_all
  show ?case
  proof (cases "burnin s \<le> r")
    case True
    then show ?thesis
      using step ih v nn by (simp add: logSum_dlog)
  next
    case False
    then show ?thesis
      using step ih by simp
  qed
qed

lemma hv_finish_Qmatrices [simp]: "hv (finish_Qmatrices a s) = hv s"
  by (simp add: finish_Qmatrices_def Let_def)

lemma hv_reset_zero [simp]: "hv (reset_zero s) = hv s"
  by (simp add: reset_zero_def Let_def)

lemma hv_reset_populate [simp]: "hv (reset_populate s) = hv s"
  by (simp add: reset_populate_def Let_def)

lemma hv_reset_group: "reset_group us s = Some s' \<Longrightarrow> hv s' = hv s"
proof -
  assume a: "reset_group us s = Some s'"
  have "hv s' = hv (s\<lparr>groupIndex := - 1\<rparr>)"
    using a unfolding reset_group_def Let_def
    by (rule ofold_obs [rotated])
      (erule ofold_obs [rotated], erule ofold_obs [rotated], auto split: option.splits)
  then show ?thesis by simp
qed

lemma hv_harmonic_update: "hv (s\<lparr>harmonic := h\<rparr>) = (burnin s, samples s, h)"
  by (simp add: hv_def)

lemma reset_harmonic:
  assumes "reset us rq s0 = Some s"
  shows "harmonic s = NInf \<and> burnin s = burnin s0 \<and> samples s = samples s0"
proof -
  have "hv s = (burnin s0, samples s0, dlog (dbl 0))"
    using assms
    by (auto simp: reset_def Let_def hv_harmonic_update split: option.splits
        dest!: hv_reset_group)
  then show ?thesis by (simp add: hv_def dbl_Fin)
qed

text \<open>
  Claim C8. After \<^verbatim>\<open>reset\<close> the accumulator \<^verbatim>\<open>harmonic\<close> is \<open>log 0\<close>, minus infinity. An
  iteration \<open>r\<close> of \<^verbatim>\<open>perform_MCMC\<close> replaces it by \<open>logSum\<close> of itself and minus the
  \<^verbatim>\<open>logLikeGroup\<close> of that iteration when \<open>r\<close> is past the burn-in, and leaves it alone
  otherwise. The value that \<^verbatim>\<open>perform_MCMC\<close> returns is the logarithm of \<^verbatim>\<open>samples\<close> minus
  the logarithm of the sum of the exponentials of minus the \<^verbatim>\<open>logLikeGroup\<close> values of
  the \<^verbatim>\<open>samples\<close> iterations after the burn-in.
\<close>

theorem harmonic_mean_evidence:
  assumes "reset us rq s0 = Some s" and "perform_MCMC lg hung a s = Some s'"
  shows "harmonic s = dlog (dbl 0)
    \<and> (\<forall>r t sr t' sr'.
          iterations lg hung a s r = Some (t, sr)
          \<and> mcmc_rep lg hung a r (t, sr) = Some (t', sr') \<longrightarrow>
          harmonic sr' = (if burnin s0 \<le> r then logSum (harmonic sr) (- logLikeGroup sr')
                          else harmonic sr))
    \<and> harmonic s' = dlog (dbln (samples s0))
         - dlog (\<Sum>r\<leftarrow>[burnin s0..<burnin s0 + samples s0].
                    dexp (- likelihood_at lg hung a s r))"
proof -
  from reset_harmonic [OF assms(1)] have
    r: "harmonic s = NInf" "burnin s = burnin s0" "samples s = samples s0"
    by simp_all
  have 1: "harmonic s = dlog (dbl 0)"
    using r by (simp add: dbl_Fin)
  have 2: "harmonic sr' = (if burnin s0 \<le> r then logSum (harmonic sr) (- logLikeGroup sr')
                          else harmonic sr)"
    if "iterations lg hung a s r = Some (t, sr)"
      and "mcmc_rep lg hung a r (t, sr) = Some (t', sr')" for r t sr t' sr'
    using harmonic_invariant [OF r(1) that(1)] mcmc_rep_harmonic [OF that(2)] r by simp
  from assms(2) obtain t s1 where
    it: "iterations lg hung a s (burnin s + samples s) = Some (t, s1)"
    by (auto simp: perform_MCMC_def iterations_def split: option.splits)
  then have fin: "s' = (let s2 = (if fixLabels a then finish_Qmatrices a s1 else s1)
                in s2\<lparr>harmonic := dlog (dbln (samples s2)) - harmonic s2\<rparr>)"
    using assms(2) by (auto simp: perform_MCMC_def iterations_def Let_def)
  from harmonic_invariant [OF r(1) it] have
    inv: "burnin s1 = burnin s" "samples s1 = samples s"
      "harmonic s1 = dlog (\<Sum>q\<leftarrow>[burnin s..<burnin s + samples s].
                               dexp (- likelihood_at lg hung a s q))"
    by simp_all
  have "hv (if fixLabels a then finish_Qmatrices a s1 else s1) = hv s1"
    by simp
  then have 3: "harmonic s' = dlog (dbln (samples s0))
         - dlog (\<Sum>r\<leftarrow>[burnin s0..<burnin s0 + samples s0].
                    dexp (- likelihood_at lg hung a s r))"
    using inv r by (simp add: fin Let_def hv_def)
  from 1 2 3 show ?thesis by blast
qed

section \<open>Runs of the small chain\<close>

lemmas eval_defs = reset_def reset_group_def reset_zero_def reset_populate_def count_copy_def
      incr1_def incr2_def incr3_def put2_def sample1_def Let_def chain_S1_def eval_nat_numeral dbl_Fin dbln_Fin
      group_update_def group_update_copy_def weight_step_def deq_def

lemma reset_S1: "reset (\<lambda>g. Fin (1 / 4)) True chain_S1 = Some chain_S1"
  by (simp add: eval_defs)

lemma gu_S1: "group_update (\<lambda>g. Fin (1 / 4)) chain_S1 = Some (chain_S1\<lparr>probVec := [Fin (1 / 3), Fin (1 / 2)], probVecSum := Fin (5 / 6)\<rparr>)"
  by (simp add: eval_defs)

lemma rep_S1:
  "mcmc_rep (\<lambda>y. y * y) hungarian args_S1 0 (Suc 0, chain_S1)
   = Some (Suc 0, chain_S1\<lparr>probVec := [Fin (1 / 3), Fin (1 / 2)], probVecSum := Fin (5 / 6),
        logLikeGroup := Fin (- 6), logLikeGroup_sum := Fin (- 6),
        logLikeGroup_sumSquared := Fin 36, logLikeGroup_store := [Fin (- 6)],
        harmonic := Fin 6\<rparr>)"
  by (simp add: mcmc_rep_def args_S1_def d_logLikeGroup_def add_likelihoods_def logSum_def eval_defs)

lemma run_S1: "perform_MCMC (\<lambda>y. y * y) hungarian args_S1 chain_S1
   = Some (chain_S1\<lparr>probVec := [Fin (1 / 3), Fin (1 / 2)], probVecSum := Fin (5 / 6),
        logLikeGroup := Fin (- 6), logLikeGroup_sum := Fin (- 6),
        logLikeGroup_sumSquared := Fin 36, logLikeGroup_store := [Fin (- 6)],
        harmonic := Fin (- 6)\<rparr>)"
proof -
  have b: "burnin chain_S1 + samples chain_S1 = Suc 0"
    by (simp add: chain_S1_def)
  show ?thesis
    by (simp add: perform_MCMC_def b rep_S1) (simp add: args_S1_def chain_S1_def dbln_Fin)
qed

theorem harmonic_mean_evidence_witness:
  "reset (\<lambda>g. Fin (1 / 4)) True chain_S1 = Some chain_S1
   \<and> (\<exists>s'. perform_MCMC (\<lambda>y. y * y) hungarian args_S1 chain_S1 = Some s'
         \<and> harmonic s' = Fin (- 6)
         \<and> harmonic s' = dlog (dbln (samples chain_S1))
              - dlog (\<Sum>r\<leftarrow>[burnin chain_S1..<burnin chain_S1 + samples chain_S1].
                   dexp (- likelihood_at (\<lambda>y. y * y) hungarian args_S1 chain_S1 r)))
   \<and> harmonic chain_S1 = dlog (dbl 0)"
  using harmonic_mean_evidence [OF reset_S1 run_S1] reset_S1 run_S1
  by simp

section \<open>Loops that fill a vector\<close>

lemma length_put2 [simp]: "length (put2 v a b x) = length v"
  by (simp add: put2_def)

lemma nth_put2:
  "a < length v \<Longrightarrow> put2 v a b x ! a' = (if a' = a then (v ! a)[b := x] else v ! a')"
  by (simp add: put2_def)

lemma put2_put2 [simp]: "put2 (put2 v a b x) a b y = put2 v a b y"
  by (cases "a < length v") (simp_all add: put2_def list_update_beyond)

lemma fold_upt_Suc: "fold f [0..<Suc m] s = f m (fold f [0..<m] s)"
  by simp

lemma fill_row:
  "m \<le> length v \<Longrightarrow> fold (\<lambda>k v. v[k := f k]) [0..<m] v = map f [0..<m] @ drop m v"
proof (induction m)
  case 0
  then show ?case by simp
next
  case (Suc m)
  then have "fold (\<lambda>k v. v[k := f k]) [0..<Suc m] v = (map f [0..<m] @ drop m v)[m := f m]"
    by simp
  also have "\<dots> = map f [0..<m] @ (drop m v)[0 := f m]"
    by (simp add: list_update_append)
  also have "(drop m v)[0 := f m] = f m # drop (Suc m) v"
    using Suc.prems by (simp add: Cons_nth_drop_Suc [symmetric])
  finally show ?case by simp
qed

lemma fill_row_full:
  "length v = m \<Longrightarrow> fold (\<lambda>k v. v[k := f k]) [0..<m] v = map f [0..<m]"
  by (simp add: fill_row)

lemma fill_matrix:
  assumes "m \<le> length v" and "\<And>i. i < m \<Longrightarrow> length (v ! i) = c"
  shows "fold (\<lambda>i v. fold (\<lambda>k v. put2 v i k (f i k)) [0..<c] v) [0..<m] v
         = map (\<lambda>i. map (f i) [0..<c]) [0..<m] @ drop m v"
proof -
  have row: "fold (\<lambda>k v. put2 v i k (f i k)) xs v = v[i := fold (\<lambda>k r. r[k := f i k]) xs (v ! i)]"
    if "i < length v" for i xs and v :: "'a list list"
    using that by (induction xs arbitrary: v) (simp_all add: put2_def)
  have "fold (\<lambda>i v. fold (\<lambda>k v. put2 v i k (f i k)) [0..<c] v) [0..<m] v
        = fold (\<lambda>i v. v[i := map (f i) [0..<c]]) [0..<m] v"
    using assms
  proof (induction m)
    case 0
    then show ?case by simp
  next
    case (Suc m)
    let ?w = "fold (\<lambda>i v. v[i := map (f i) [0..<c]]) [0..<m] v"
    have w: "?w = map (\<lambda>i. map (f i) [0..<c]) [0..<m] @ drop m v"
      using Suc.prems by (simp add: fill_row)
    have lw: "length ?w = length v"
      using Suc.prems by (simp add: w)
    have "?w ! m = v ! m"
      using Suc.prems by (simp add: w nth_append)
    then have "length (?w ! m) = c"
      using Suc.prems by simp
    then show ?case
      using Suc lw by (simp add: row fill_row_full)
  qed
  then show ?thesis
    using assms by (simp add: fill_row)
qed

lemma fold_field:
  assumes f: "\<And>x s. f x s = upd (\<lambda>_. g s x (get s)) s"
    and g: "\<And>v s. g (upd (\<lambda>_. v) s) = g s"
    and get_upd: "\<And>v s. get (upd (\<lambda>_. v) s) = v"
    and upd_upd: "\<And>v w s. upd (\<lambda>_. v) (upd (\<lambda>_. w) s) = upd (\<lambda>_. v) s"
    and upd_get: "\<And>s. upd (\<lambda>_. get s) s = s"
  shows "fold f xs s = upd (\<lambda>_. fold (g s) xs (get s)) s"
proof (induction xs arbitrary: s)
  case Nil
  then show ?case by (simp add: upd_get)
next
  case (Cons x xs)
  have "fold f (x # xs) s = fold f xs (f x s)"
    by simp
  also have "\<dots> = upd (\<lambda>_. fold (g (f x s)) xs (get (f x s))) (f x s)"
    by (rule Cons.IH)
  also have "f x s = upd (\<lambda>_. g s x (get s)) s"
    by (rule f)
  finally show ?case
    by (simp add: g get_upd upd_upd)
qed

lemma put2_beyond:
  "\<not> (a < length v \<and> b < length (v ! a)) \<Longrightarrow> put2 v a b x = v"
  by (auto simp: put2_def list_update_beyond not_less list_update_same_conv)

lemma put2_read_back:
  fixes x :: double
  shows "put2 (put2 v a b x) a b (put2 v a b x ! a ! b + r) = put2 v a b (x + r)"
proof (cases "a < length v \<and> b < length (v ! a)")
  case True
  then show ?thesis by (simp add: put2_def)
next
  case False
  then show ?thesis by (simp add: put2_beyond)
qed

lemma put2_read_back2:
  fixes x :: double
  shows "put2 v a b (put2 v a b x ! a ! b + r) = put2 v a b (x + r)"
  using put2_read_back [of v a b x r] by simp

lemma costMat_inner:
  "fold (\<lambda>i s. s\<lparr>costMat := put2 (costMat s) k1 k2
                          (costMat s ! k1 ! k2
                           + Qmatrix_gene_new s ! i ! k1
                             * (logQmatrix_gene_new s ! i ! k1
                                - logQmatrix_gene_running s ! i ! k2))\<rparr>) xs
      (s\<lparr>costMat := put2 (costMat s) k1 k2 x\<rparr>)
   = s\<lparr>costMat := put2 (costMat s) k1 k2
        (x + (\<Sum>i\<leftarrow>xs. Qmatrix_gene_new s ! i ! k1
                             * (logQmatrix_gene_new s ! i ! k1
                                - logQmatrix_gene_running s ! i ! k2)))\<rparr>"
proof (induction xs arbitrary: x)
  case Nil
  then show ?case by simp
next
  case (Cons i xs)
  show ?case
    using Cons.IH [of "x + Qmatrix_gene_new s ! i ! k1
                             * (logQmatrix_gene_new s ! i ! k1
                                - logQmatrix_gene_running s ! i ! k2)"]
    by (simp add: put2_read_back2 add.assoc)
qed

lemma fill_costMat_fold:
  "fill_costMat s = s\<lparr>costMat :=
     fold (\<lambda>k1 C. fold (\<lambda>k2 C. put2 C k1 k2 (cost_formula s k1 k2)) [0..<K s] C)
       [0..<K s] (costMat s)\<rparr>"
proof -
  have cf: "cost_formula (t\<lparr>costMat := v\<rparr>) = cost_formula t" for t v
    by (intro ext) (simp add: cost_formula_def)
  have mid: "fold (\<lambda>i s. s\<lparr>costMat := put2 (costMat s) k1 k2
                          (costMat s ! k1 ! k2
                           + Qmatrix_gene_new s ! i ! k1
                             * (logQmatrix_gene_new s ! i ! k1
                                - logQmatrix_gene_running s ! i ! k2))\<rparr>)
           [0..<geneCopies t] (t\<lparr>costMat := put2 (costMat t) k1 k2 (Fin 0)\<rparr>)
         = t\<lparr>costMat := put2 (costMat t) k1 k2 (cost_formula t k1 k2)\<rparr>" for k1 k2 t
    by (simp add: costMat_inner cost_formula_def)
  have k2: "fold (\<lambda>k2 s.
         fold (\<lambda>i s. s\<lparr>costMat := put2 (costMat s) k1 k2
                          (costMat s ! k1 ! k2
                           + Qmatrix_gene_new s ! i ! k1
                             * (logQmatrix_gene_new s ! i ! k1
                                - logQmatrix_gene_running s ! i ! k2))\<rparr>)
           [0..<geneCopies s] (s\<lparr>costMat := put2 (costMat s) k1 k2 (Fin 0)\<rparr>)) xs t
        = t\<lparr>costMat := fold (\<lambda>k2 C. put2 C k1 k2 (cost_formula t k1 k2)) xs (costMat t)\<rparr>"
    for k1 xs t
    by (rule fold_field [where g = "\<lambda>s k2 C. put2 C k1 k2 (cost_formula s k1 k2)"])
      (simp_all add: cf mid)
  have k1: "fold (\<lambda>k1 s.
       fold (\<lambda>k2 s.
         fold (\<lambda>i s. s\<lparr>costMat := put2 (costMat s) k1 k2
                          (costMat s ! k1 ! k2
                           + Qmatrix_gene_new s ! i ! k1
                             * (logQmatrix_gene_new s ! i ! k1
                                - logQmatrix_gene_running s ! i ! k2))\<rparr>)
           [0..<geneCopies s] (s\<lparr>costMat := put2 (costMat s) k1 k2 (Fin 0)\<rparr>))
         [0..<K s] s) xs t
       = t\<lparr>costMat := fold (\<lambda>k1 C. fold (\<lambda>k2 C. put2 C k1 k2 (cost_formula t k1 k2)) [0..<K t] C) xs (costMat t)\<rparr>"
    for xs t
    by (rule fold_field [where g = "\<lambda>s k1 C. fold (\<lambda>k2 C. put2 C k1 k2 (cost_formula s k1 k2)) [0..<K s] C"])
      (simp_all add: cf k2)
  show ?thesis
    by (simp add: fill_costMat_def k1)
qed

lemma fill_costMat_eq:
  assumes "length (costMat s) = K s" and "\<And>k. k < K s \<Longrightarrow> length (costMat s ! k) = K s"
  shows "fill_costMat s = s\<lparr>costMat := map (\<lambda>k1. map (cost_formula s k1) [0..<K s]) [0..<K s]\<rparr>"
  using assms by (simp add: fill_costMat_fold fill_matrix)

section \<open>The inverse permutation\<close>

lemma fill_bestPermOrder_fold:
  "fold (\<lambda>k (performSwap, s).
            (performSwap \<or> bestPerm s ! k \<noteq> k,
             s\<lparr>bestPermOrder := (bestPermOrder s)[bestPerm s ! k := k]\<rparr>)) xs (sw, s)
   = (sw \<or> (\<exists>k\<in>set xs. bestPerm s ! k \<noteq> k),
      s\<lparr>bestPermOrder := fold (\<lambda>k v. v[bestPerm s ! k := k]) xs (bestPermOrder s)\<rparr>)"
proof (induction xs arbitrary: sw s)
  case Nil
  then show ?case by simp
next
  case (Cons x xs)
  show ?case
    by (simp add: Cons.IH)
qed

lemma fill_bestPermOrder_eq:
  "fill_bestPermOrder s
   = ((\<exists>k<K s. bestPerm s ! k \<noteq> k),
      s\<lparr>bestPermOrder := fold (\<lambda>k v. v[bestPerm s ! k := k]) [0..<K s] (bestPermOrder s)\<rparr>)"
  by (auto simp: fill_bestPermOrder_def fill_bestPermOrder_fold)

lemma perm_upt_props:
  assumes "mset q = mset [0..<m]"
  shows "length q = m" "distinct q" "set q = {..<m}"
proof -
  show "length q = m"
    using assms mset_eq_length by fastforce
  show "distinct q"
    using assms by (metis distinct_upt mset_eq_imp_distinct_iff)
  show "set q = {..<m}"
    using assms by (metis atLeast_upt mset_eq_setD)
qed

lemma inverse_fold:
  assumes "m \<le> length q" "distinct q" "\<And>k. k < length q \<Longrightarrow> q ! k < length v"
  shows "length (fold (\<lambda>k v. v[q ! k := k]) [0..<m] v) = length v
    \<and> (\<forall>k<m. fold (\<lambda>k v. v[q ! k := k]) [0..<m] v ! (q ! k) = k)"
  using assms(1)
proof (induction m)
  case 0
  then show ?case by simp
next
  case (Suc m)
  let ?w = "fold (\<lambda>k v. v[q ! k := k]) [0..<m] v"
  from Suc have ih: "length ?w = length v" "\<And>k. k < m \<Longrightarrow> ?w ! (q ! k) = k"
    by simp_all
  have ne: "q ! k \<noteq> q ! m" if "k < m" for k
    using that Suc.prems assms(2) by (simp add: nth_eq_iff_index_eq)
  have "(?w[q ! m := m]) ! (q ! k) = k" if "k < Suc m" for k
  proof (cases "k = m")
    case True
    then show ?thesis
      using Suc.prems assms(3) [of m] ih(1) by simp
  next
    case False
    with that have "k < m" by simp
    then show ?thesis
      using ne [of k] ih(2) by simp
  qed
  then show ?case
    using ih(1) by simp
qed

lemma inverse_perm:
  assumes q: "mset q = mset [0..<m]" and len: "length v = m"
  defines "w \<equiv> fold (\<lambda>k v. v[q ! k := k]) [0..<m] v"
  shows "length w = m" and "\<forall>k<m. w ! (q ! k) = k" and "mset w = mset [0..<m]"
    and "\<forall>j<m. q ! (w ! j) = j"
proof -
  note p = perm_upt_props [OF q]
  have rng: "q ! k < length v" if "k < length q" for k
    using that p len by (metis lessThan_iff nth_mem)
  from inverse_fold [of m q v, OF _ p(2) rng] p(1)
  show 1: "length w = m" and 2: "\<forall>k<m. w ! (q ! k) = k"
    by (simp_all add: w_def len)
  have "map ((!) w) q = [0..<m]"
    by (rule nth_equalityI) (use 2 p(1) in simp_all)
  then have "mset (map ((!) w) q) = mset [0..<m]"
    by simp
  moreover have "mset (map ((!) w) q) = mset (map ((!) w) [0..<m])"
    using q by (metis mset_map)
  moreover have "map ((!) w) [0..<m] = w"
    using 1 map_nth [of w] by simp
  ultimately show 3: "mset w = mset [0..<m]"
    by simp
  show "\<forall>j<m. q ! (w ! j) = j"
  proof (intro allI impI)
    fix j assume "j < m"
    then have "j \<in> set q" using p(3) by simp
    then obtain k where k: "k < m" "q ! k = j"
      using p(1) by (metis in_set_conv_nth)
    then show "q ! (w ! j) = j" using 2 by auto
  qed
qed

section \<open>The relabelling\<close>

lemma map_in_place:
  "m \<le> length v \<Longrightarrow> fold (\<lambda>i v. v[i := h (v ! i)]) [0..<m] v = map h (take m v) @ drop m v"
proof (induction m)
  case 0
  then show ?case by simp
next
  case (Suc m)
  then have "fold (\<lambda>i v. v[i := h (v ! i)]) [0..<Suc m] v
      = (map h (take m v) @ drop m v)[m := h ((map h (take m v) @ drop m v) ! m)]"
    by simp
  also have "(map h (take m v) @ drop m v) ! m = v ! m"
    using Suc.prems by (simp add: nth_append)
  also have "(map h (take m v) @ drop m v)[m := h (v ! m)]
      = map h (take m v) @ (drop m v)[0 := h (v ! m)]"
    using Suc.prems by (simp add: list_update_append)
  also have "(drop m v)[0 := h (v ! m)] = h (v ! m) # drop (Suc m) v"
    using Suc.prems by (simp add: Cons_nth_drop_Suc [symmetric])
  finally show ?case
    using Suc.prems by (simp add: take_Suc_conv_app_nth)
qed

lemma group_map:
  "length v = m \<Longrightarrow>
   fold (\<lambda>i v. v[i := q ! (v ! i - 1) + 1]) [0..<m] v = map (\<lambda>g. q ! (g - 1) + 1) v"
  using map_in_place [where h = "\<lambda>g. q ! (g - 1) + 1" and m = m and v = v] by simp

lemma swap_group_loop:
  "fold (\<lambda>i s. s\<lparr>linearGroup := (linearGroup s)[i := bestPerm s ! (linearGroup s ! i - 1) + 1]\<rparr>)
     xs s
   = s\<lparr>linearGroup := fold (\<lambda>i v. v[i := bestPerm s ! (v ! i - 1) + 1]) xs (linearGroup s)\<rparr>"
  by (rule fold_field [where g = "\<lambda>s i v. v[i := bestPerm s ! (v ! i - 1) + 1]"]) simp_all

lemma swap_allele_loop:
  "fold (\<lambda>k s. s\<lparr>alleleCounts := (alleleCounts s)[k :=
                              old_alleleCounts s ! (bestPermOrder s ! k)],
                            alleleCountsTotals := (alleleCountsTotals s)[k :=
                              old_alleleCountsTotals s ! (bestPermOrder s ! k)]\<rparr>) xs s
   = s\<lparr>alleleCounts :=
          fold (\<lambda>k v. v[k := old_alleleCounts s ! (bestPermOrder s ! k)]) xs (alleleCounts s),
        alleleCountsTotals :=
          fold (\<lambda>k v. v[k := old_alleleCountsTotals s ! (bestPermOrder s ! k)]) xs
            (alleleCountsTotals s)\<rparr>"
  by (induction xs arbitrary: s) simp_all

lemma swap_admix_loop:
  "fold (\<lambda>i s.
       fold (\<lambda>k s. s\<lparr>admixCounts := put2 (admixCounts s) i k
                                  (old_admixCounts s ! i ! (bestPermOrder s ! k))\<rparr>)
         [0..<K s] s) xs s
   = s\<lparr>admixCounts :=
        fold (\<lambda>i v. fold (\<lambda>k v. put2 v i k (old_admixCounts s ! i ! (bestPermOrder s ! k)))
                       [0..<K s] v) xs (admixCounts s)\<rparr>"
proof -
  have inner: "fold (\<lambda>k s. s\<lparr>admixCounts := put2 (admixCounts s) i k
                                  (old_admixCounts s ! i ! (bestPermOrder s ! k))\<rparr>) ys t
     = t\<lparr>admixCounts :=
          fold (\<lambda>k v. put2 v i k (old_admixCounts t ! i ! (bestPermOrder t ! k))) ys
            (admixCounts t)\<rparr>" for i ys t
    by (rule fold_field
        [where g = "\<lambda>s k v. put2 v i k (old_admixCounts s ! i ! (bestPermOrder s ! k))"])
      simp_all
  show ?thesis
    by (rule fold_field
        [where g = "\<lambda>s i v. fold (\<lambda>k v. put2 v i k (old_admixCounts s ! i ! (bestPermOrder s ! k)))
                       [0..<K s] v"])
      (simp_all add: inner)
qed

lemma swap_logQ_loop:
  "fold (\<lambda>i s.
       fold (\<lambda>k s. s\<lparr>logQmatrix_gene_new := put2 (logQmatrix_gene_new s) i k
                            (logQmatrix_gene_old s ! i ! (bestPermOrder s ! k))\<rparr>)
         [0..<K s] s) xs s
   = s\<lparr>logQmatrix_gene_new :=
        fold (\<lambda>i v. fold (\<lambda>k v. put2 v i k (logQmatrix_gene_old s ! i ! (bestPermOrder s ! k)))
                       [0..<K s] v) xs (logQmatrix_gene_new s)\<rparr>"
proof -
  have inner: "fold (\<lambda>k s. s\<lparr>logQmatrix_gene_new := put2 (logQmatrix_gene_new s) i k
                            (logQmatrix_gene_old s ! i ! (bestPermOrder s ! k))\<rparr>) ys t
     = t\<lparr>logQmatrix_gene_new :=
          fold (\<lambda>k v. put2 v i k (logQmatrix_gene_old t ! i ! (bestPermOrder t ! k))) ys
            (logQmatrix_gene_new t)\<rparr>" for i ys t
    by (rule fold_field
        [where g = "\<lambda>s k v. put2 v i k (logQmatrix_gene_old s ! i ! (bestPermOrder s ! k))"])
      simp_all
  show ?thesis
    by (rule fold_field
        [where g = "\<lambda>s i v. fold (\<lambda>k v. put2 v i k (logQmatrix_gene_old s ! i ! (bestPermOrder s ! k)))
                       [0..<K s] v"])
      (simp_all add: inner)
qed

lemma swap_labels_eq:
  assumes "align_dims s"
  shows "swap_labels s = s\<lparr>
      linearGroup := map (\<lambda>g. bestPerm s ! (g - 1) + 1) (linearGroup s),
      old_alleleCounts := alleleCounts s,
      old_alleleCountsTotals := alleleCountsTotals s,
      alleleCounts := map (\<lambda>k. alleleCounts s ! (bestPermOrder s ! k)) [0..<K s],
      alleleCountsTotals := map (\<lambda>k. alleleCountsTotals s ! (bestPermOrder s ! k)) [0..<K s],
      old_admixCounts := admixCounts s,
      admixCounts :=
        map (\<lambda>i. map (\<lambda>k. admixCounts s ! i ! (bestPermOrder s ! k)) [0..<K s]) [0..<n s],
      logQmatrix_gene_old := logQmatrix_gene_new s,
      logQmatrix_gene_new :=
        map (\<lambda>g. map (\<lambda>k. logQmatrix_gene_new s ! g ! (bestPermOrder s ! k)) [0..<K s])
          [0..<geneCopies s]\<rparr>"
  using assms
  by (simp add: swap_labels_def Let_def swap_group_loop swap_allele_loop swap_admix_loop
      swap_logQ_loop group_map fill_row_full fill_matrix align_dims_def del: One_nat_def)

section \<open>The assignment solver of the model\<close>

lemma less_double_trans: "(a::double) < b \<Longrightarrow> b < c \<Longrightarrow> a < c"
  by (cases a; cases b; cases c) simp_all

lemma less_double_irrefl [simp]: "\<not> (a::double) < a"
  by (cases a) simp_all

lemma set_inserts: "set (inserts x ys) = {as @ x # bs | as bs. as @ bs = ys}"
proof (induction ys)
  case Nil
  then show ?case by simp
next
  case (Cons y ys)
  show ?case
  proof (intro equalityI subsetI)
    fix zs assume "zs \<in> set (inserts x (y # ys))"
    then consider "zs = x # y # ys" | ws where "ws \<in> set (inserts x ys)" "zs = y # ws"
      by auto
    then show "zs \<in> {as @ x # bs | as bs. as @ bs = y # ys}"
    proof cases
      case 1
      then have "zs = [] @ x # (y # ys)" by simp
      then show ?thesis by blast
    next
      case 2
      then obtain as bs where "ws = as @ x # bs" "as @ bs = ys"
        using Cons.IH by auto
      with 2 have "zs = (y # as) @ x # bs" "(y # as) @ bs = y # ys" by simp_all
      then show ?thesis by blast
    qed
  next
    fix zs assume "zs \<in> {as @ x # bs | as bs. as @ bs = y # ys}"
    then obtain as bs where z: "zs = as @ x # bs" "as @ bs = y # ys" by blast
    show "zs \<in> set (inserts x (y # ys))"
    proof (cases as)
      case Nil
      with z show ?thesis by simp
    next
      case (Cons a as')
      with z have "a = y" "as' @ bs = ys" by simp_all
      then have "as' @ x # bs \<in> set (inserts x ys)"
        using Cons.IH by blast
      with Cons z \<open>a = y\<close> show ?thesis by simp
    qed
  qed
qed

lemma set_perms: "set (perms xs) = {ys. mset ys = mset xs}"
proof (induction xs)
  case Nil
  then show ?case by simp
next
  case (Cons x xs)
  show ?case
  proof (intro equalityI subsetI)
    fix zs assume "zs \<in> set (perms (x # xs))"
    then obtain ws where "ws \<in> set (perms xs)" "zs \<in> set (inserts x ws)"
      by auto
    then obtain as bs where "mset ws = mset xs" "zs = as @ x # bs" "as @ bs = ws"
      using Cons.IH by (auto simp: set_inserts)
    then have "mset zs = mset (x # xs)"
      by (metis mset.simps(2) mset_append add_mset_add_single union_mset_add_mset_right)
    then show "zs \<in> {ys. mset ys = mset (x # xs)}" by simp
  next
    fix zs assume "zs \<in> {ys. mset ys = mset (x # xs)}"
    then have m: "mset zs = mset (x # xs)" by simp
    then have "x \<in> set zs"
      by (metis list.set_intros(1) mset_eq_setD)
    then obtain as bs where z: "zs = as @ x # bs"
      by (meson split_list)
    with m have "mset (as @ bs) = mset xs"
      by simp
    then have "as @ bs \<in> set (perms xs)"
      using Cons.IH by simp
    moreover have "zs \<in> set (inserts x (as @ bs))"
      using z by (auto simp: set_inserts)
    ultimately show "zs \<in> set (perms (x # xs))"
      by auto
  qed
qed

lemma least_cost_in: "least_cost C b qs \<in> set (b # qs)"
  by (induction qs arbitrary: b) auto

lemma least_cost_le:
  "least_cost C b qs = b \<or> perm_cost C (least_cost C b qs) < perm_cost C b"
proof (induction qs arbitrary: b)
  case Nil
  then show ?case by simp
next
  case (Cons q qs)
  show ?case
    using Cons.IH [of "if perm_cost C q < perm_cost C b then q else b"]
    by (auto dest: less_double_trans)
qed

lemma least_cost_min:
  "q \<in> set (b # qs) \<Longrightarrow> \<not> perm_cost C q < perm_cost C (least_cost C b qs)"
proof (induction qs arbitrary: b)
  case Nil
  then show ?case by simp
next
  case (Cons q' qs)
  let ?b = "if perm_cost C q' < perm_cost C b then q' else b"
  let ?r = "least_cost C ?b qs"
  have r: "least_cost C b (q' # qs) = ?r" by simp
  have A: "?r = ?b \<or> perm_cost C ?r < perm_cost C ?b"
    by (rule least_cost_le)
  consider "q \<in> set (?b # qs)" | "q = b" "perm_cost C q' < perm_cost C b"
    | "q = q'" "\<not> perm_cost C q' < perm_cost C b"
    using Cons.prems by (cases "perm_cost C q' < perm_cost C b") auto
  then show ?case
  proof cases
    case 1
    then show ?thesis using Cons.IH [of ?b] r by simp
  next
    case 2
    show ?thesis
    proof
      assume "perm_cost C q < perm_cost C (least_cost C b (q' # qs))"
      then have "perm_cost C b < perm_cost C ?r" using 2 r by simp
      with A 2 show False
        by (auto dest: less_double_trans)
    qed
  next
    case 3
    show ?thesis
    proof
      assume "perm_cost C q < perm_cost C (least_cost C b (q' # qs))"
      then have "perm_cost C q' < perm_cost C ?r" using 3 r by simp
      with A 3 show False
        by (auto dest: less_double_trans)
    qed
  qed
qed

lemma hungarian_perm: "mset (hungarian C) = mset [0..<length C]"
proof -
  have "hungarian C \<in> set ([0..<length C] # perms [0..<length C])"
    unfolding hungarian_def by (rule least_cost_in)
  then show ?thesis
    by (auto simp: set_perms)
qed

lemma hungarian_min:
  assumes "mset q = mset [0..<length C]"
  shows "\<not> perm_cost C q < perm_cost C (hungarian C)"
proof -
  have "q \<in> set ([0..<length C] # perms [0..<length C])"
    using assms by (simp add: set_perms)
  then show ?thesis
    unfolding hungarian_def by (rule least_cost_min)
qed

lemma not_identity_iff:
  assumes "length q = m"
  shows "(\<exists>k<m. q ! k \<noteq> k) = (q \<noteq> [0..<m])"
proof
  assume "\<exists>k<m. q ! k \<noteq> k"
  then show "q \<noteq> [0..<m]" by auto
next
  assume "q \<noteq> [0..<m]"
  show "\<exists>k<m. q ! k \<noteq> k"
  proof (rule ccontr)
    assume "\<not> (\<exists>k<m. q ! k \<noteq> k)"
    then have "q = [0..<m]"
      using assms by (intro nth_equalityI) simp_all
    with \<open>q \<noteq> [0..<m]\<close> show False by simp
  qed
qed

lemma chooseBestLabelPermutation_eq:
  assumes "align_dims s"
  shows "chooseBestLabelPermutation hung s =
    (let s3 = s\<lparr>costMat := cost_matrix s, bestPerm := hung (cost_matrix s),
                 bestPermOrder := inverse_order (hung (cost_matrix s)) (bestPermOrder s)\<rparr>
     in if \<exists>k<K s. hung (cost_matrix s) ! k \<noteq> k then swap_labels s3 else s3)"
proof -
  have c: "fill_costMat s = s\<lparr>costMat := cost_matrix s\<rparr>"
    using assms by (simp add: fill_costMat_eq align_dims_def cost_matrix_def)
  have len: "length (bestPermOrder s) = K s"
    using assms by (simp add: align_dims_def)
  have "fill_bestPermOrder (s\<lparr>costMat := cost_matrix s, bestPerm := hung (cost_matrix s)\<rparr>)
      = ((\<exists>k<K s. hung (cost_matrix s) ! k \<noteq> k),
         s\<lparr>costMat := cost_matrix s, bestPerm := hung (cost_matrix s),
           bestPermOrder := inverse_order (hung (cost_matrix s)) (bestPermOrder s)\<rparr>)"
    by (simp add: fill_bestPermOrder_eq inverse_order_def len)
  then show ?thesis
    by (simp add: chooseBestLabelPermutation_def c Let_def del: not_ex not_all split del: if_split)
qed

text \<open>
  Claim C3. On a chain whose vectors have the dimensions the constructor gives them,
  \<^verbatim>\<open>chooseBestLabelPermutation\<close> fills \<^verbatim>\<open>costMat\<close> with the sums over the gene copies of
  \<open>Qnew[g][k1] * (logQnew[g][k1] - logQrunning[g][k2])\<close>, takes from the solver a
  permutation \<open>q\<close> of the demes that no permutation undercuts in cost, and writes the
  inverse permutation into \<^verbatim>\<open>bestPermOrder\<close>. When \<open>q\<close> is not the identity, every group
  label \<open>g\<close> becomes \<open>q[g-1]+1\<close>, and the rows of the allele counts and their totals, the
  deme entries of the admixture counts and those of \<open>logQnew\<close> are rearranged by the
  inverse permutation. When \<open>q\<close> is the identity, nothing changes but the three work
  members \<^verbatim>\<open>costMat\<close>, \<^verbatim>\<open>bestPerm\<close> and \<^verbatim>\<open>bestPermOrder\<close>, which every call overwrites.
  \<open>logQrunning\<close> is never changed.
\<close>

theorem chooseBestLabelPermutation_spec:
  assumes "align_dims s"
    and "q = hungarian (cost_matrix s)"
    and "s' = chooseBestLabelPermutation hungarian s"
    and "order = bestPermOrder s'"
  shows "costMat s' = cost_matrix s
    \<and> (\<forall>k1<K s. \<forall>k2<K s. costMat s' ! k1 ! k2 =
          (\<Sum>g\<leftarrow>[0..<geneCopies s].
             Qmatrix_gene_new s ! g ! k1
             * (logQmatrix_gene_new s ! g ! k1 - logQmatrix_gene_running s ! g ! k2)))
    \<and> bestPerm s' = q
    \<and> mset q = mset [0..<K s]
    \<and> (\<forall>r. mset r = mset [0..<K s] \<longrightarrow>
          \<not> perm_cost (cost_matrix s) r < perm_cost (cost_matrix s) q)
    \<and> mset order = mset [0..<K s]
    \<and> (\<forall>k<K s. order ! (q ! k) = k)
    \<and> logQmatrix_gene_running s' = logQmatrix_gene_running s
    \<and> (q \<noteq> [0..<K s] \<longrightarrow>
          linearGroup s' = map (\<lambda>g. q ! (g - 1) + 1) (linearGroup s)
          \<and> alleleCounts s' = map (\<lambda>k. alleleCounts s ! (order ! k)) [0..<K s]
          \<and> alleleCountsTotals s' = map (\<lambda>k. alleleCountsTotals s ! (order ! k)) [0..<K s]
          \<and> admixCounts s' =
              map (\<lambda>i. map (\<lambda>k. admixCounts s ! i ! (order ! k)) [0..<K s]) [0..<n s]
          \<and> logQmatrix_gene_new s' =
              map (\<lambda>g. map (\<lambda>k. logQmatrix_gene_new s ! g ! (order ! k)) [0..<K s])
                [0..<geneCopies s]
          \<and> admixCountsTotals s' = admixCountsTotals s
          \<and> Qmatrix_gene_new s' = Qmatrix_gene_new s
          \<and> logQmatrix_gene s' = logQmatrix_gene s)
    \<and> (q = [0..<K s] \<longrightarrow>
          s' = s\<lparr>costMat := cost_matrix s, bestPerm := q, bestPermOrder := order\<rparr>)"
proof -
  have lenC: "length (cost_matrix s) = K s"
    by (simp add: cost_matrix_def)
  have q: "mset q = mset [0..<K s]"
    using hungarian_perm [of "cost_matrix s"] by (simp add: assms(2) lenC)
  have lenq: "length q = K s"
    using q by (rule perm_upt_props)
  have min: "\<not> perm_cost (cost_matrix s) r < perm_cost (cost_matrix s) q"
    if "mset r = mset [0..<K s]" for r
    using hungarian_min [of r "cost_matrix s"] that by (simp add: assms(2) lenC)
  have lenO: "length (bestPermOrder s) = K s"
    using assms(1) by (simp add: align_dims_def)
  define w where "w = inverse_order q (bestPermOrder s)"
  have w: "length w = K s" "\<forall>k<K s. w ! (q ! k) = k" "mset w = mset [0..<K s]"
    using inverse_perm [OF q lenO] by (simp_all add: w_def inverse_order_def lenO)
  define s3 where "s3 = s\<lparr>costMat := cost_matrix s, bestPerm := q, bestPermOrder := w\<rparr>"
  have d3: "align_dims s3"
    using assms(1) w(1) by (simp add: s3_def align_dims_def cost_matrix_def)
  have s': "s' = (if q \<noteq> [0..<K s] then swap_labels s3 else s3)"
  proof -
    have "(\<exists>k<K s. q ! k \<noteq> k) = (q \<noteq> [0..<K s])"
      by (rule not_identity_iff [OF lenq])
    then show ?thesis
      unfolding assms(3) chooseBestLabelPermutation_eq [OF assms(1)] Let_def s3_def w_def
        assms(2) [symmetric]
      by (simp split del: if_split)
  qed
  have sw: "swap_labels s3 = s3\<lparr>
      linearGroup := map (\<lambda>g. bestPerm s3 ! (g - 1) + 1) (linearGroup s3),
      old_alleleCounts := alleleCounts s3,
      old_alleleCountsTotals := alleleCountsTotals s3,
      alleleCounts := map (\<lambda>k. alleleCounts s3 ! (bestPermOrder s3 ! k)) [0..<K s3],
      alleleCountsTotals := map (\<lambda>k. alleleCountsTotals s3 ! (bestPermOrder s3 ! k)) [0..<K s3],
      old_admixCounts := admixCounts s3,
      admixCounts :=
        map (\<lambda>i. map (\<lambda>k. admixCounts s3 ! i ! (bestPermOrder s3 ! k)) [0..<K s3]) [0..<n s3],
      logQmatrix_gene_old := logQmatrix_gene_new s3,
      logQmatrix_gene_new :=
        map (\<lambda>g. map (\<lambda>k. logQmatrix_gene_new s3 ! g ! (bestPermOrder s3 ! k)) [0..<K s3])
          [0..<geneCopies s3]\<rparr>"
    using d3 by (rule swap_labels_eq)
  have ord: "order = w"
    by (simp add: assms(4) s' sw) (simp add: s3_def)
  have cm: "\<forall>k1<K s. \<forall>k2<K s. cost_matrix s ! k1 ! k2 =
          (\<Sum>g\<leftarrow>[0..<geneCopies s].
             Qmatrix_gene_new s ! g ! k1
             * (logQmatrix_gene_new s ! g ! k1 - logQmatrix_gene_running s ! g ! k2))"
    by (simp add: cost_matrix_def cost_formula_def)
  have 1: "costMat s' = cost_matrix s" "bestPerm s' = q"
    "logQmatrix_gene_running s' = logQmatrix_gene_running s"
    by (simp_all add: s' sw) (simp_all add: s3_def)
  have 2: "q \<noteq> [0..<K s] \<longrightarrow>
          linearGroup s' = map (\<lambda>g. q ! (g - 1) + 1) (linearGroup s)
          \<and> alleleCounts s' = map (\<lambda>k. alleleCounts s ! (order ! k)) [0..<K s]
          \<and> alleleCountsTotals s' = map (\<lambda>k. alleleCountsTotals s ! (order ! k)) [0..<K s]
          \<and> admixCounts s' =
              map (\<lambda>i. map (\<lambda>k. admixCounts s ! i ! (order ! k)) [0..<K s]) [0..<n s]
          \<and> logQmatrix_gene_new s' =
              map (\<lambda>g. map (\<lambda>k. logQmatrix_gene_new s ! g ! (order ! k)) [0..<K s])
                [0..<geneCopies s]
          \<and> admixCountsTotals s' = admixCountsTotals s
          \<and> Qmatrix_gene_new s' = Qmatrix_gene_new s
          \<and> logQmatrix_gene s' = logQmatrix_gene s"
    by (simp add: s' sw ord del: One_nat_def) (simp add: s3_def del: One_nat_def)
  have 3: "q = [0..<K s] \<longrightarrow>
          s' = s\<lparr>costMat := cost_matrix s, bestPerm := q, bestPermOrder := order\<rparr>"
    by (simp add: s' ord s3_def)
  have cm': "\<forall>k1<K s. \<forall>k2<K s. costMat s' ! k1 ! k2 =
          (\<Sum>g\<leftarrow>[0..<geneCopies s].
             Qmatrix_gene_new s ! g ! k1
             * (logQmatrix_gene_new s ! g ! k1 - logQmatrix_gene_running s ! g ! k2))"
    using cm by (simp only: 1(1))
  have m: "\<forall>r. mset r = mset [0..<K s] \<longrightarrow>
          \<not> perm_cost (cost_matrix s) r < perm_cost (cost_matrix s) q"
    using min by blast
  have o: "mset order = mset [0..<K s]" "\<forall>k<K s. order ! (q ! k) = k"
    using w by (simp_all only: ord)
  show ?thesis
    by (intro conjI) (rule 1 2 3 q m o cm')+
qed

lemma align_dims_swap: "align_dims chain_swap"
  by (simp add: align_dims_def chain_swap_def chain_S1_def eval_nat_numeral less_Suc_eq)

lemma align_dims_S1: "align_dims chain_S1"
  by (simp add: align_dims_def chain_S1_def eval_nat_numeral less_Suc_eq)

lemma cost_matrix_swap:
  "cost_matrix chain_swap = [[Fin 3, Fin 0], [Fin (1 / 2), Fin (- (1 / 2))]]"
  by (simp add: cost_matrix_def cost_formula_def chain_swap_def chain_S1_def eval_nat_numeral)

lemma cost_matrix_S1:
  "cost_matrix chain_S1 = [[Fin 0, Fin 0], [Fin 0, Fin 0]]"
  by (simp add: cost_matrix_def cost_formula_def chain_S1_def eval_nat_numeral)

lemma hungarian_swap: "hungarian [[Fin 3, Fin 0], [Fin (1 / 2), Fin (- (1 / 2))]] = [1, 0]"
  by (simp add: hungarian_def perm_cost_def eval_nat_numeral)

lemma hungarian_zero: "hungarian [[Fin 0, Fin 0], [Fin 0, Fin 0]] = [0, 1]"
  by (simp add: hungarian_def perm_cost_def eval_nat_numeral)

lemma choose_swap:
  "chooseBestLabelPermutation hungarian chain_swap = chain_swap\<lparr>
     costMat := [[Fin 3, Fin 0], [Fin (1 / 2), Fin (- (1 / 2))]],
     bestPerm := [1, 0], bestPermOrder := [1, 0], linearGroup := [2, 2],
     old_alleleCounts := [[[1, 1]], [[0, 0]]], old_alleleCountsTotals := [[2], [0]],
     alleleCounts := [[[0, 0]], [[1, 1]]], alleleCountsTotals := [[0], [2]],
     old_admixCounts := [[1, 0], [1, 0]], admixCounts := [[0, 1], [0, 1]],
     logQmatrix_gene_old := [[Fin (- 1), Fin (- 2)], [Fin (- 1), Fin (- 2)]],
     logQmatrix_gene_new := [[Fin (- 2), Fin (- 1)], [Fin (- 2), Fin (- 1)]]\<rparr>"
  by (simp add: chooseBestLabelPermutation_def fill_costMat_def fill_bestPermOrder_def
      swap_labels_def put2_def hungarian_def perm_cost_def chain_swap_def chain_S1_def Let_def
      eval_nat_numeral)

lemma choose_S1:
  "chooseBestLabelPermutation hungarian chain_S1
   = chain_S1\<lparr>costMat := [[Fin 0, Fin 0], [Fin 0, Fin 0]], bestPerm := [0, 1],
       bestPermOrder := [0, 1]\<rparr>"
  by (simp add: chooseBestLabelPermutation_def fill_costMat_def fill_bestPermOrder_def
      swap_labels_def put2_def hungarian_def perm_cost_def chain_S1_def Let_def
      eval_nat_numeral)

theorem chooseBestLabelPermutation_spec_witness:
  "align_dims chain_swap
   \<and> hungarian (cost_matrix chain_swap) = [1, 0]
   \<and> bestPermOrder (chooseBestLabelPermutation hungarian chain_swap) = [1, 0]
   \<and> linearGroup chain_swap = [1, 1]
   \<and> linearGroup (chooseBestLabelPermutation hungarian chain_swap) = [2, 2]
   \<and> alleleCounts chain_swap = [[[1, 1]], [[0, 0]]]
   \<and> alleleCounts (chooseBestLabelPermutation hungarian chain_swap) = [[[0, 0]], [[1, 1]]]
   \<and> alleleCountsTotals (chooseBestLabelPermutation hungarian chain_swap) = [[0], [2]]
   \<and> admixCounts (chooseBestLabelPermutation hungarian chain_swap) = [[0, 1], [0, 1]]
   \<and> logQmatrix_gene_new (chooseBestLabelPermutation hungarian chain_swap)
       = [[Fin (- 2), Fin (- 1)], [Fin (- 2), Fin (- 1)]]
   \<and> logQmatrix_gene_running (chooseBestLabelPermutation hungarian chain_swap)
       = logQmatrix_gene_running chain_swap
   \<and> align_dims chain_S1
   \<and> hungarian (cost_matrix chain_S1) = [0, 1]
   \<and> chooseBestLabelPermutation hungarian chain_S1
       = chain_S1\<lparr>costMat := [[Fin 0, Fin 0], [Fin 0, Fin 0]], bestPerm := [0, 1],
           bestPermOrder := [0, 1]\<rparr>"
proof -
  have h1: "[1, 0] = hungarian (cost_matrix chain_swap)"
    by (simp add: cost_matrix_swap hungarian_swap)
  have h2: "[0, 1] = hungarian (cost_matrix chain_S1)"
    by (simp add: cost_matrix_S1 hungarian_zero)
  note a = chooseBestLabelPermutation_spec [OF align_dims_swap h1 refl refl]
  note b = chooseBestLabelPermutation_spec [OF align_dims_S1 h2 refl refl]
  have f: "linearGroup chain_swap = [1, 1]" "alleleCounts chain_swap = [[[1, 1]], [[0, 0]]]"
    by (simp_all add: chain_swap_def chain_S1_def)
  show ?thesis
    using a b h1 [symmetric] h2 [symmetric] align_dims_swap align_dims_S1
    by (simp add: choose_swap choose_S1 f)
qed

end
